theory Spec2Isabelle
  imports Main "HOL-Library.Sublist"
begin

section \<open>Bytes\<close>

text \<open>
  A Go string is a sequence of bytes; it is modelled as a \<open>char list\<close>, one \<open>char\<close>
  per byte. The bytes the package names in its patterns and format strings:
\<close>

definition nl :: char where "nl = CHR 0x0A"
definition cr :: char where "cr = CHR 0x0D"
definition esc :: char where "esc = CHR 0x1B"
definition tab :: char where "tab = CHR 0x09"
definition ff :: char where "ff = CHR 0x0C"
definition spc :: char where "spc = CHR 0x20"
definition dq :: char where "dq = CHR 0x22"
definition bsl :: char where "bsl = CHR 0x5C"

section \<open>The regexp engine\<close>

text \<open>
  Package \<open>regexp\<close> returns the leftmost match and, among the matches that start there,
  the one a backtracking search finds first. The patterns of this package are sequences of
  literal bytes, byte classes, greedy repetitions of a class, the multi-line anchor
  \<open>(?m)^\<close> and one capture group, so a pattern is a list of items and \<open>run\<close> is that
  backtracking search from one position. Every literal and every class bound of the
  patterns is an ASCII byte, which in Go never occurs inside a multi-byte rune, so matching
  byte by byte and rune by rune agree.
\<close>

datatype cls = In "char list" | NotIn "char list"

fun accepts :: "cls \<Rightarrow> char \<Rightarrow> bool" where
  "accepts (In cs) c = (c \<in> set cs)"
| "accepts (NotIn cs) c = (c \<notin> set cs)"

datatype item = Bol | Chars cls | Star cls | Plus cls | Open | Close

text \<open>\<open>(?m)^\<close> holds at the start of the text and after every newline; \<open>prev\<close> is the
  byte before the current position.\<close>

definition at_bol :: "char option \<Rightarrow> bool" where
  "at_bol prev = (case prev of None \<Rightarrow> True | Some c \<Rightarrow> c = nl)"

text \<open>A successful run gives the text of group 1, the text after the match and the last
  byte before it. The pair \<open>(ob, cb)\<close> holds the input as it was when the group was opened
  and when it was closed.\<close>

type_synonym submatch = "string \<times> string \<times> char option"

fun run :: "item list \<Rightarrow> char option \<Rightarrow> string \<Rightarrow> string \<times> string \<Rightarrow> submatch option" where
  "run [] prev s (ob, cb) = Some (take (length ob - length cb) ob, s, prev)"
| "run (Bol # rs) prev s g = (if at_bol prev then run rs prev s g else None)"
| "run (Open # rs) prev s (ob, cb) = run rs prev s (s, cb)"
| "run (Close # rs) prev s (ob, cb) = run rs prev s (ob, s)"
| "run (Chars c # rs) prev [] g = None"
| "run (Chars c # rs) prev (x # xs) g = (if accepts c x then run rs (Some x) xs g else None)"
| "run (Star c # rs) prev [] g = run rs prev [] g"
| "run (Star c # rs) prev (x # xs) g =
     (if accepts c x
      then (case run (Star c # rs) (Some x) xs g of
              Some m \<Rightarrow> Some m
            | None \<Rightarrow> run rs prev (x # xs) g)
      else run rs prev (x # xs) g)"
| "run (Plus c # rs) prev [] g = None"
| "run (Plus c # rs) prev (x # xs) g =
     (if accepts c x then run (Star c # rs) (Some x) xs g else None)"

text \<open>The leftmost match at or after the current position, with the text skipped before
  it.\<close>

fun find :: "item list \<Rightarrow> char option \<Rightarrow> string \<Rightarrow> (string \<times> submatch) option" where
  "find rs prev [] = map_option (Pair []) (run rs prev [] ([], []))"
| "find rs prev (x # xs) =
     (case run rs prev (x # xs) (x # xs, x # xs) of
        Some m \<Rightarrow> Some ([], m)
      | None \<Rightarrow> map_option (\<lambda>(sk, m). (x # sk, m)) (find rs (Some x) xs))"

text \<open>\<open>FindStringSubmatch\<close>: \<open>None\<close> is Go's nil, \<open>Some m1\<close> gives \<open>m[1]\<close>.\<close>

definition group1 :: "string \<times> submatch \<Rightarrow> string" where
  "group1 = (\<lambda>(sk, m1, rest, prev). m1)"

definition FindStringSubmatch :: "item list \<Rightarrow> string \<Rightarrow> string option" where
  "FindStringSubmatch re s = map_option group1 (find re None s)"

text \<open>
  \<open>FindAllStringSubmatch(s, -1)\<close>: the successive matches. \<open>adj\<close> says that the previous
  match ended at the current position; as in Go, an empty match there is dropped and the
  search moves one position on (one byte here, one rune in Go: no pattern of this package
  matches the empty string).
\<close>

function all_matches :: "item list \<Rightarrow> char option \<Rightarrow> string \<Rightarrow> bool \<Rightarrow> string list" where
  "all_matches re prev s adj =
     (case find re prev s of
        None \<Rightarrow> []
      | Some (sk, m1, rest, prev') \<Rightarrow>
          if length rest < length s then m1 # all_matches re prev' rest True
          else (if adj then [] else [m1]) @
               (case s of [] \<Rightarrow> [] | x # xs \<Rightarrow> all_matches re (Some x) xs False))"
  by pat_completeness auto
termination
  by (relation "measure (\<lambda>(re, prev, s, adj). length s)") auto

declare all_matches.simps [simp del]

definition FindAllStringSubmatch :: "item list \<Rightarrow> string \<Rightarrow> string list" where
  "FindAllStringSubmatch re s = all_matches re None s False"

text \<open>
  \<open>ReplaceAllString(src, repl)\<close> for a replacement without \<open>$\<close>: the text between the
  matches is copied, each match is replaced. \<open>pend\<close> is the text between the end of the last
  match and the current position, \<open>at0\<close> says that the position is the start of the text.
\<close>

function replace_all :: "item list \<Rightarrow> string \<Rightarrow> char option \<Rightarrow> string \<Rightarrow> string \<Rightarrow> bool \<Rightarrow> string" where
  "replace_all re repl prev s pend at0 =
     (case find re prev s of
        None \<Rightarrow> pend @ s
      | Some (sk, m1, rest, prev') \<Rightarrow>
          (let out = pend @ sk @
                 (if length rest < length s \<or> pend \<noteq> [] \<or> (at0 \<and> sk = []) then repl else [])
           in if length rest < length s then out @ replace_all re repl prev' rest [] False
              else (case s of [] \<Rightarrow> out | x # xs \<Rightarrow> out @ replace_all re repl (Some x) xs [x] False)))"
  by pat_completeness auto
termination
  by (relation "measure (\<lambda>(re, repl, prev, s, pend, at0). length s)") auto

declare replace_all.simps [simp del]

definition ReplaceAllString :: "item list \<Rightarrow> string \<Rightarrow> string \<Rightarrow> string" where
  "ReplaceAllString re src repl = replace_all re repl None src [] True"

text \<open>\<open>strings.Trim(s, cutset)\<close> for an ASCII cutset: the bytes of the cutset are cut
  from the right end, then from the left end.\<close>

definition Trim :: "string \<Rightarrow> string \<Rightarrow> string" where
  "Trim s cutset =
     dropWhile (\<lambda>c. c \<in> set cutset) (rev (dropWhile (\<lambda>c. c \<in> set cutset) (rev s)))"

section \<open>The patterns\<close>

definition lit :: "string \<Rightarrow> item list" where
  "lit s = map (\<lambda>c. Chars (In [c])) s"

text \<open>\<^verbatim>\<open>(?m)^gpg: Good signature from "(.*)"\<close>; without the flag \<open>s\<close> the dot is every
  byte but the newline.\<close>

definition goodSignatureRE :: "item list" where
  "goodSignatureRE =
     Bol # lit ''gpg: Good signature from '' @
     [Chars (In [dq]), Open, Star (NotIn [nl]), Close, Chars (In [dq])]"

text \<open>\<^verbatim>\<open>(?m)^gpg: BAD signature from "(.*)"\<close>\<close>

definition badSignatureRE :: "item list" where
  "badSignatureRE =
     Bol # lit ''gpg: BAD signature from '' @
     [Chars (In [dq]), Open, Star (NotIn [nl]), Close, Chars (In [dq])]"

text \<open>\<^verbatim>\<open>(?m)^gpg: encrypted with[^\n]+\n\s*"([^\n]+)"\n\<close>; \<open>\s\<close> is the class
  \<open>[\t\n\f\r ]\<close>.\<close>

definition encryptedRE :: "item list" where
  "encryptedRE =
     Bol # lit ''gpg: encrypted with'' @
     [Plus (NotIn [nl]), Chars (In [nl]), Star (In [tab, nl, ff, cr, spc]),
      Chars (In [dq]), Open, Plus (NotIn [nl]), Close, Chars (In [dq]), Chars (In [nl])]"

text \<open>\<^verbatim>\<open>[\033\r]\<close>\<close>

definition unprintableRE :: "item list" where
  "unprintableRE = [Chars (In [esc, cr])]"

section \<open>Errors and their messages\<close>

text \<open>
  An error of the package is an error of the operating system or of package \<open>exec\<close>
  (known by its text only), that error wrapped with a message by \<open>errors.Wrapf\<close>, or a
  fresh error made by \<open>fmt.Errorf\<close>. A message is kept as its format string cut at the
  verbs, with the arguments in place: \<open>T\<close> is literal text, \<open>Q s\<close> the verb \<open>%q\<close> on
  the string \<open>s\<close>, \<open>D n\<close> the verb \<open>%d\<close> on the integer \<open>n\<close>.
\<close>

datatype piece = T string | Q string | D int

datatype go_error =
    OsError string
  | Wrapf go_error "piece list"
  | Errorf "piece list"

text \<open>\<open>%d\<close>: the decimal digits, with a minus sign below zero.\<close>

fun digits :: "nat \<Rightarrow> string" where
  "digits n = (if n < 10 then [char_of (48 + n)] else digits (n div 10) @ [char_of (48 + n mod 10)])"

definition Itoa :: "int \<Rightarrow> string" where
  "Itoa i = (if i < 0 then CHR ''-'' # digits (nat (- i)) else digits (nat i))"

text \<open>
  \<open>%q\<close> is \<open>strconv.Quote\<close>: a double-quoted Go string literal with escape sequences for
  the quote, the backslash and every rune that is not printable. \<open>DecodeRune\<close> is
  \<open>utf8.DecodeRuneInString\<close> on a text that starts with a byte from \<open>0x80\<close> on (rune and
  width; an invalid encoding is \<open>RuneError\<close> of width 1), \<open>EncodeRune\<close> is
  \<open>utf8.AppendRune\<close>.
\<close>

definition RuneError :: nat where "RuneError = 0xFFFD"

definition lowerhex :: "nat \<Rightarrow> char" where
  "lowerhex n = ''0123456789abcdef'' ! (n mod 16)"

definition cont_byte :: "nat \<Rightarrow> bool" where
  "cont_byte b = (0x80 \<le> b \<and> b \<le> 0xBF)"

definition DecodeRune :: "string \<Rightarrow> nat \<times> nat" where
  "DecodeRune s =
     (let b = (\<lambda>i. (of_char (s ! i) :: nat)); b0 = b 0 in
      if s = [] then (RuneError, 0)
      else if b0 < 0x80 then (b0, 1)
      else if b0 < 0xC2 \<or> 0xF4 < b0 then (RuneError, 1)
      else
        (let (sz, lo, hi) =
               (if b0 \<le> 0xDF then (2, 0x80, 0xBF)
                else if b0 = 0xE0 then (3, 0xA0, 0xBF)
                else if b0 = 0xED then (3, 0x80, 0x9F)
                else if b0 \<le> 0xEF then (3, 0x80, 0xBF)
                else if b0 = 0xF0 then (4, 0x90, 0xBF)
                else if b0 = 0xF4 then (4, 0x80, 0x8F)
                else (4::nat, 0x80::nat, 0xBF::nat))
         in if length s < sz then (RuneError, 1)
            else if b 1 < lo \<or> hi < b 1 then (RuneError, 1)
            else if sz \<le> 2 then ((b0 mod 32) * 64 + b 1 mod 64, 2)
            else if \<not> cont_byte (b 2) then (RuneError, 1)
            else if sz \<le> 3 then ((b0 mod 16) * 4096 + (b 1 mod 64) * 64 + b 2 mod 64, 3)
            else if \<not> cont_byte (b 3) then (RuneError, 1)
            else ((b0 mod 8) * 262144 + (b 1 mod 64) * 4096 + (b 2 mod 64) * 64 + b 3 mod 64, 4)))"

definition encode3 :: "nat \<Rightarrow> string" where
  "encode3 r = [char_of (0xE0 + r div 4096), char_of (0x80 + (r div 64) mod 64), char_of (0x80 + r mod 64)]"

definition EncodeRune :: "nat \<Rightarrow> string" where
  "EncodeRune r =
     (if r \<le> 0x7F then [char_of r]
      else if r \<le> 0x7FF then [char_of (0xC0 + r div 64), char_of (0x80 + r mod 64)]
      else if 0x10FFFF < r \<or> (0xD800 \<le> r \<and> r \<le> 0xDFFF) then encode3 RuneError
      else if r \<le> 0xFFFF then encode3 r
      else [char_of (0xF0 + r div 262144), char_of (0x80 + (r div 4096) mod 64),
            char_of (0x80 + (r div 64) mod 64), char_of (0x80 + r mod 64)])"

text \<open>\<open>strconv.IsPrint\<close>: Latin-1 is decided in the function itself; beyond it Go looks
  the rune up in tables of the Unicode data, which are the parameter \<open>tbl\<close> here.\<close>

definition IsPrint :: "(nat \<Rightarrow> bool) \<Rightarrow> nat \<Rightarrow> bool" where
  "IsPrint tbl r =
     (if r \<le> 0xFF then (0x20 \<le> r \<and> r \<le> 0x7E) \<or> (0xA1 \<le> r \<and> r \<noteq> 0xAD) else tbl r)"

definition hex :: "nat \<Rightarrow> nat \<Rightarrow> string" where
  "hex k r = map (\<lambda>i. lowerhex (r div 16 ^ i)) (rev [0..<k])"

definition appendEscapedRune :: "(nat \<Rightarrow> bool) \<Rightarrow> nat \<Rightarrow> string" where
  "appendEscapedRune tbl r =
     (if r = 0x22 \<or> r = 0x5C then [bsl, char_of r]
      else if IsPrint tbl r then EncodeRune r
      else if r = 7 then [bsl, CHR ''a'']
      else if r = 8 then [bsl, CHR ''b'']
      else if r = 12 then [bsl, CHR ''f'']
      else if r = 10 then [bsl, CHR ''n'']
      else if r = 13 then [bsl, CHR ''r'']
      else if r = 9 then [bsl, CHR ''t'']
      else if r = 11 then [bsl, CHR ''v'']
      else if r < 0x20 \<or> r = 0x7F then [bsl, CHR ''x''] @ hex 2 r
      else if 0x10FFFF < r \<or> (0xD800 \<le> r \<and> r \<le> 0xDFFF) then [bsl, CHR ''u''] @ hex 4 RuneError
      else if r < 0x10000 then [bsl, CHR ''u''] @ hex 4 r
      else [bsl, CHR ''U''] @ hex 8 r)"

fun quote_body :: "(nat \<Rightarrow> bool) \<Rightarrow> string \<Rightarrow> string" where
  "quote_body tbl [] = []"
| "quote_body tbl (x # xs) =
     (let (r, width) = (if (of_char x :: nat) < 0x80 then (of_char x, 1) else DecodeRune (x # xs))
      in (if width = 1 \<and> r = RuneError then [bsl, CHR ''x''] @ hex 2 (of_char x)
          else appendEscapedRune tbl r) @
         quote_body tbl (drop (width - 1) xs))"

definition Quote :: "(nat \<Rightarrow> bool) \<Rightarrow> string \<Rightarrow> string" where
  "Quote tbl s = dq # quote_body tbl s @ [dq]"

fun render :: "(nat \<Rightarrow> bool) \<Rightarrow> piece \<Rightarrow> string" where
  "render tbl (T s) = s"
| "render tbl (Q s) = Quote tbl s"
| "render tbl (D n) = Itoa n"

definition Sprintf :: "(nat \<Rightarrow> bool) \<Rightarrow> piece list \<Rightarrow> string" where
  "Sprintf tbl ps = concat (map (render tbl) ps)"

text \<open>The method \<open>Error()\<close>: a wrapped error prints its message, a colon and a space, and
  the text of its cause.\<close>

fun Error :: "(nat \<Rightarrow> bool) \<Rightarrow> go_error \<Rightarrow> string" where
  "Error tbl (OsError t) = t"
| "Error tbl (Wrapf cause ps) = Sprintf tbl ps @ '': '' @ Error tbl cause"
| "Error tbl (Errorf ps) = Sprintf tbl ps"

section \<open>The operations\<close>

record Status =
  Signed :: string
  Encrypted :: "string list"
  GoodSignature :: bool
  Warnings :: "string list"

text \<open>\<open>&Status{}\<close>: every field at its zero value.\<close>

definition zero_Status :: Status where
  "zero_Status = \<lparr>Signed = [], Encrypted = [], GoodSignature = False, Warnings = []\<rparr>"

text \<open>The handle, and \<open>New\<close>. The passphrase goes to the command line of the subprocess
  only.\<close>

record GPG =
  GPG :: string
  Passphrase :: string

definition New :: "string \<Rightarrow> GPG" where
  "New gpg = \<lparr>GPG = gpg, Passphrase = []\<rparr>"

text \<open>
  What \<open>cmd.Wait\<close> returned: nil; an \<open>*exec.ExitError\<close>, with the exit status when its
  \<open>Sys()\<close> is a \<open>syscall.WaitStatus\<close>; or another error (the copying of a stream
  failed, say). Each error carries its text. \<open>cmd_wait\<close> is what package \<open>exec\<close> returns
  for a process that ended, when nothing else failed: nil for exit status 0, an
  \<open>ExitError\<close> otherwise, where \<open>ExitStatus()\<close> of a process ended by a signal is -1.
\<close>

datatype wait_result =
    WaitNil
  | WaitExitError string "int option"
  | WaitOther string

datatype ending = Exited nat | Signaled

fun cmd_wait :: "ending \<Rightarrow> string \<Rightarrow> wait_result" where
  "cmd_wait (Exited n) txt = (if n = 0 then WaitNil else WaitExitError txt (Some (int n)))"
| "cmd_wait Signaled txt = WaitExitError txt (Some (- 1))"

text \<open>
  The subprocess is outside the program. One run of it is given by what the program sees
  of it: the error of \<open>cmd.Start\<close> if there is one, the result of \<open>cmd.Wait\<close>, and the
  contents of the two buffers.
\<close>

record proc =
  start_err :: "string option"
  wait :: wait_result
  stdout :: string
  stderr :: string

text \<open>The files of \<open>Verify\<close>: the error of \<open>ioutil.TempDir\<close> and of the two calls of
  \<open>ioutil.WriteFile\<close>, if there is one.\<close>

record files =
  tempdir_err :: "string option"
  write_data_err :: "string option"
  write_sig_err :: "string option"

text \<open>\<^verbatim>\<open>unprintableRE.ReplaceAllString(m[1], "")\<close>\<close>

definition sanitize :: "string \<Rightarrow> string" where
  "sanitize m1 = ReplaceAllString unprintableRE m1 []"

text \<open>
  \<open>Decrypt\<close> returns the plaintext and the status, or an error. The text to decrypt
  and the context go to the subprocess only.
\<close>

definition Decrypt :: "GPG \<Rightarrow> proc \<Rightarrow> go_error + string \<times> Status" where
  "Decrypt gpg p =
     (case start_err p of
        Some e \<Rightarrow> Inl (Wrapf (OsError e) [T ''failed to start gpg ('', Q (GPG gpg), T ''): '', Q (stderr p)])
      | None \<Rightarrow>
     (case wait p of
        WaitExitError e u \<Rightarrow> Inl (Wrapf (OsError e) [T ''gpg decrypt failed: '', Q (stderr p)])
      | WaitOther e \<Rightarrow> Inl (Wrapf (OsError e) [T ''gpg decrypt failed: '', Q (stderr p)])
      | WaitNil \<Rightarrow>
     (let status = zero_Status;
          status = (case FindStringSubmatch goodSignatureRE (stderr p) of
                      Some m1 \<Rightarrow> status\<lparr>Signed := sanitize m1, GoodSignature := True\<rparr>
                    | None \<Rightarrow> status);
          status = status\<lparr>Encrypted := Encrypted status @
                      map (\<lambda>m1. Trim (sanitize m1) [tab, spc])
                        (FindAllStringSubmatch encryptedRE (stderr p))\<rparr>
      in Inr (stdout p, status))))"

text \<open>
  The block \<^verbatim>\<open>if err := cmd.Wait(); err != nil { ... }\<close>, which \<open>Verify\<close> and
  \<open>VerifyInline\<close> have word for word in common: the error it returns, or \<open>None\<close> when
  control goes on to the parsing (\<open>Wait\<close> returned nil, or exit status 1).
\<close>

definition wait_failure :: "proc \<Rightarrow> go_error option" where
  "wait_failure p =
     (case wait p of
        WaitNil \<Rightarrow> None
      | WaitOther e \<Rightarrow>
          Some (Wrapf (OsError e) [T ''gpg verify failed for odd reason. stderr: '', Q (stderr p)])
      | WaitExitError e None \<Rightarrow>
          Some (Wrapf (OsError e) [T ''gpg verify failed, and not unix status. stderr: '', Q (stderr p)])
      | WaitExitError e (Some u) \<Rightarrow>
          if u \<noteq> 1
          then Some (Wrapf (OsError e)
                 [T ''gpg verify failed, and not status 1 (was '', D u, T ''). stderr: '', Q (stderr p)])
          else None)"

text \<open>\<open>Verify\<close>: the temporary directory and the two files first, each error of which is
  returned as it is; then the subprocess. Logging and the removal of the directory do not
  touch the result.\<close>

definition Verify :: "GPG \<Rightarrow> files \<Rightarrow> proc \<Rightarrow> go_error + Status" where
  "Verify gpg f p =
     (case tempdir_err f of Some e \<Rightarrow> Inl (OsError e) | None \<Rightarrow>
     (case write_data_err f of Some e \<Rightarrow> Inl (OsError e) | None \<Rightarrow>
     (case write_sig_err f of Some e \<Rightarrow> Inl (OsError e) | None \<Rightarrow>
     (case start_err p of
        Some e \<Rightarrow> Inl (Wrapf (OsError e) [T ''failed to start gpg ('', Q (GPG gpg), T '')''])
      | None \<Rightarrow>
     (case wait_failure p of Some err \<Rightarrow> Inl err | None \<Rightarrow>
     (let status = zero_Status; goodOrBad = False;
          (status, goodOrBad) =
             (case FindStringSubmatch badSignatureRE (stderr p) of
                Some m1 \<Rightarrow> (status\<lparr>Signed := sanitize m1\<rparr>, True)
              | None \<Rightarrow> (status, goodOrBad));
          (status, goodOrBad) =
             (case FindStringSubmatch goodSignatureRE (stderr p) of
                Some m1 \<Rightarrow> (status\<lparr>Signed := sanitize m1, GoodSignature := True\<rparr>, True)
              | None \<Rightarrow> (status, goodOrBad))
      in if \<not> goodOrBad
         then Inl (Errorf [T ''signature not good nor bad. What? '', Q (stderr p)])
         else Inr status))))))"

definition VerifyInline :: "GPG \<Rightarrow> proc \<Rightarrow> go_error + Status" where
  "VerifyInline gpg p =
     (case start_err p of
        Some e \<Rightarrow> Inl (Wrapf (OsError e) [T ''failed to start gpg ('', Q (GPG gpg), T '')''])
      | None \<Rightarrow>
     (case wait_failure p of Some err \<Rightarrow> Inl err | None \<Rightarrow>
     (let status = zero_Status; goodOrBad = False;
          (status, goodOrBad) =
             (case FindStringSubmatch badSignatureRE (stderr p) of
                Some m1 \<Rightarrow> (status\<lparr>Signed := sanitize m1\<rparr>, True)
              | None \<Rightarrow> (status, goodOrBad));
          (status, goodOrBad) =
             (case FindStringSubmatch goodSignatureRE (stderr p) of
                Some m1 \<Rightarrow> (status\<lparr>Signed := sanitize m1, GoodSignature := True\<rparr>, True)
              | None \<Rightarrow> (status, goodOrBad))
      in if \<not> goodOrBad
         then Inl (Errorf [T ''signature not good nor bad. What? '', Q (stderr p)])
         else Inr status)))"

section \<open>The diagnostic stream, line by line\<close>

text \<open>
  The specification speaks of the lines of the diagnostic stream and of the announcements
  in it. These definitions say what that means, independently of the regexp engine; the
  lemmas below relate the patterns to them.

  The lines of a text are the pieces between its newlines.
\<close>

fun split_lines :: "string \<Rightarrow> string list" where
  "split_lines [] = [[]]"
| "split_lines (x # xs) =
     (if x = nl then [] # split_lines xs
      else (case split_lines xs of [] \<Rightarrow> [[x]] | l # ls \<Rightarrow> (x # l) # ls))"

text \<open>The text before the last occurrence of a byte.\<close>

fun upto_last :: "char \<Rightarrow> string \<Rightarrow> string option" where
  "upto_last q [] = None"
| "upto_last q (x # xs) =
     (case upto_last q xs of
        Some r \<Rightarrow> Some (x # r)
      | None \<Rightarrow> if x = q then Some [] else None)"

text \<open>
  A signature line with the announcement \<open>ann\<close> is a line that starts with \<open>ann\<close> and a
  double quote and has another double quote after it; its quoted identity is the text
  between the first of these quotes and the last quote of the line.
\<close>

definition quoted_identity :: "string \<Rightarrow> string \<Rightarrow> string option" where
  "quoted_identity ann l =
     (if prefix (ann @ [dq]) l then upto_last dq (drop (Suc (length ann)) l) else None)"

definition good_signature_line :: "string \<Rightarrow> string option" where
  "good_signature_line = quoted_identity ''gpg: Good signature from ''"

definition bad_signature_line :: "string \<Rightarrow> string option" where
  "bad_signature_line = quoted_identity ''gpg: BAD signature from ''"

text \<open>The first result that a partial function gives along a list.\<close>

fun first_of :: "('a \<Rightarrow> 'b option) \<Rightarrow> 'a list \<Rightarrow> 'b option" where
  "first_of f [] = None"
| "first_of f (x # xs) = (case f x of Some y \<Rightarrow> Some y | None \<Rightarrow> first_of f xs)"

text \<open>
  An announcement of a recipient is what \<open>encryptedRE\<close> is written for: a line
  \<open>gpg: encrypted with\<close> and a description of the key, then, after white space, a line
  that is the identity in double quotes. It is complete when the description and the
  identity are not empty and the line of the identity is ended by a newline. A stream is
  read as a list of complete announcements and of other lines, each ended by a newline,
  and a last piece of text without newline.
\<close>

datatype chunk = Announcement string string string | Other string

fun emit :: "chunk \<Rightarrow> string" where
  "emit (Announcement key ws ident) =
     ''gpg: encrypted with'' @ key @ [nl] @ ws @ [dq] @ ident @ [dq, nl]"
| "emit (Other l) = l @ [nl]"

fun chunk_ok :: "chunk \<Rightarrow> bool" where
  "chunk_ok (Announcement key ws ident) =
     (key \<noteq> [] \<and> nl \<notin> set key \<and> set ws \<subseteq> {tab, nl, ff, cr, spc} \<and>
      ident \<noteq> [] \<and> nl \<notin> set ident)"
| "chunk_ok (Other l) = (nl \<notin> set l)"

fun identities :: "chunk list \<Rightarrow> string list" where
  "identities [] = []"
| "identities (Announcement key ws ident # cs) = ident # identities cs"
| "identities (Other l # cs) = identities cs"

definition stream :: "chunk list \<Rightarrow> string" where
  "stream cs = concat (map emit cs)"

text \<open>
  The text \<open>u\<close> after an opening double quote starts with the rest of a line of identity:
  its first line is ended by a newline and is a non-empty identity and a double quote.
\<close>

definition identity_line :: "string \<Rightarrow> bool" where
  "identity_line u =
     (nl \<in> set u \<and>
      (let v = takeWhile (\<lambda>c. c \<noteq> nl) u in 2 \<le> length v \<and> last v = dq))"

text \<open>
  The line \<open>l\<close>, followed by the text \<open>t\<close>, is the first line of a complete announcement:
  it is \<open>gpg: encrypted with\<close> and a non-empty description, and \<open>t\<close> is white space, a
  double quote and the rest of a line of identity.
\<close>

definition opens_announcement :: "string \<Rightarrow> string \<Rightarrow> bool" where
  "opens_announcement l t =
     (prefix ''gpg: encrypted with'' l \<and> l \<noteq> ''gpg: encrypted with'' \<and>
      (case dropWhile (\<lambda>c. c \<in> set [tab, nl, ff, cr, spc]) t of
         [] \<Rightarrow> False
       | x # u \<Rightarrow> x = dq \<and> identity_line u))"

text \<open>
  The stream \<open>stream cs @ rest\<close> is read rightly as the chunks \<open>cs\<close> and the last piece
  \<open>rest\<close>: the announcements are complete, and no other line is the first line of a
  complete announcement.
\<close>

fun stream_ok :: "chunk list \<Rightarrow> string \<Rightarrow> bool" where
  "stream_ok [] rest = (nl \<notin> set rest)"
| "stream_ok (Announcement key ws ident # cs) rest =
     (chunk_ok (Announcement key ws ident) \<and> stream_ok cs rest)"
| "stream_ok (Other l # cs) rest =
     (chunk_ok (Other l) \<and> \<not> opens_announcement l (stream cs @ rest) \<and> stream_ok cs rest)"

text \<open>The common shape of the two signature patterns, for the lemmas on them.\<close>

definition signatureRE :: "string \<Rightarrow> item list" where
  "signatureRE ann =
     Bol # lit ann @ [Chars (In [dq]), Open, Star (NotIn [nl]), Close, Chars (In [dq])]"

text \<open>A string without the bytes that the sanitizer removes.\<close>

definition no_control :: "string \<Rightarrow> bool" where
  "no_control s = (esc \<notin> set s \<and> cr \<notin> set s)"

text \<open>
  What the parsing of \<open>Verify\<close> and \<open>VerifyInline\<close> comes to, in terms of the lines of
  the stream: the first good-signature line if there is one, else the first bad-signature
  line, else the error.
\<close>

definition verdict :: "string \<Rightarrow> go_error + Status" where
  "verdict diag =
     (case first_of good_signature_line (split_lines diag) of
        Some ident \<Rightarrow> Inr (zero_Status\<lparr>Signed := sanitize ident, GoodSignature := True\<rparr>)
      | None \<Rightarrow>
     (case first_of bad_signature_line (split_lines diag) of
        Some ident \<Rightarrow> Inr (zero_Status\<lparr>Signed := sanitize ident\<rparr>)
      | None \<Rightarrow> Inl (Errorf [T ''signature not good nor bad. What? '', Q diag])))"




section \<open>Lemmas on the engine\<close>

lemma run_lit: "run (lit p @ rs) prev s g =
   (if prefix p s then run rs (if p = [] then prev else Some (last p)) (drop (length p) s) g else None)"
proof (induction p arbitrary: prev s)
  case Nil then show ?case by (simp add: lit_def)
next
  case (Cons a p)
  show ?case
  proof (cases s)
    case Nil then show ?thesis by (simp add: lit_def)
  next
    case (Cons x xs)
    then show ?thesis using Cons.IH[of "Some a" xs] by (auto simp: lit_def)
  qed
qed

lemma run_identity:
  "run [Star (NotIn [nl]), Close, Chars (In [dq])] prev s (ob, cb) =
     map_option (\<lambda>r. (take (length ob - (length s - length r)) ob, drop (Suc (length r)) s, Some dq))
       (upto_last dq (takeWhile (\<lambda>c. c \<noteq> nl) s))"
proof (induction s arbitrary: prev)
  case Nil show ?case by simp
next
  case (Cons x xs)
  show ?case
    using Cons.IH[of "Some x"]
    by (auto simp: nl_def dq_def split: option.splits)
qed

lemma upto_last_prefix: "upto_last q l = Some r \<Longrightarrow> prefix r l"
  by (induction l arbitrary: r) (auto split: option.splits if_splits)

lemma upto_last_Some_iff: "upto_last q l \<noteq> None \<longleftrightarrow> q \<in> set l"
  by (induction l) (auto split: option.splits)

lemma upto_last_decomp:
  "upto_last q l = Some r \<longleftrightarrow> (\<exists>t. l = r @ q # t \<and> q \<notin> set t)"
proof (induction l arbitrary: r)
  case Nil show ?case by simp
next
  case (Cons x xs)
  show ?case
  proof (cases "upto_last q xs")
    case None
    then have nq: "q \<notin> set xs" using upto_last_Some_iff[of q xs] by simp
    show ?thesis
    proof
      assume "upto_last q (x # xs) = Some r"
      with None have "x = q" "r = []" by (auto split: if_splits)
      with nq show "\<exists>t. x # xs = r @ q # t \<and> q \<notin> set t" by simp
    next
      assume "\<exists>t. x # xs = r @ q # t \<and> q \<notin> set t"
      then obtain t where t: "x # xs = r @ q # t" "q \<notin> set t" by blast
      show "upto_last q (x # xs) = Some r"
      proof (cases r)
        case Nil with t None show ?thesis by simp
      next
        case (Cons a r')
        with t have "xs = r' @ q # t" by simp
        with nq show ?thesis by simp
      qed
    qed
  next
    case (Some r')
    then obtain t where t: "xs = r' @ q # t" "q \<notin> set t" using Cons.IH by blast
    show ?thesis
    proof
      assume "upto_last q (x # xs) = Some r"
      with Some have "r = x # r'" by simp
      with t show "\<exists>t. x # xs = r @ q # t \<and> q \<notin> set t" by simp
    next
      assume "\<exists>t. x # xs = r @ q # t \<and> q \<notin> set t"
      then obtain u where u: "x # xs = r @ q # u" "q \<notin> set u" by blast
      show "upto_last q (x # xs) = Some r"
      proof (cases r)
        case Nil
        with u have "xs = u" by simp
        with u t show ?thesis by simp
      next
        case (Cons a r2)
        with u have "a = x" "xs = r2 @ q # u" by simp_all
        then have "upto_last q xs = Some r2" using Cons.IH u by blast
        with Some Cons \<open>a = x\<close> show ?thesis by simp
      qed
    qed
  qed
qed

text \<open>A signature pattern: the anchor, the announcement, and the quoted group.\<close>

lemma takeWhile_drop_prefix:
  "prefix p s \<Longrightarrow> \<forall>c\<in>set p. P c \<Longrightarrow> takeWhile P (drop (length p) s) = drop (length p) (takeWhile P s)"
  by (auto simp: prefix_def takeWhile_append2 dest!: sym[of _ "length _"])

lemma prefix_takeWhile_iff:
  "\<forall>c\<in>set p. P c \<Longrightarrow> prefix p (takeWhile P s) \<longleftrightarrow> prefix p s"
proof
  assume "prefix p (takeWhile P s)"
  moreover have "prefix (takeWhile P s) s" by (metis prefix_def takeWhile_dropWhile_id)
  ultimately show "prefix p s" by (rule prefix_order.trans)
next
  assume a: "\<forall>c\<in>set p. P c" "prefix p s"
  then obtain t where "s = p @ t" by (auto simp: prefix_def)
  with a show "prefix p (takeWhile P s)" by (simp add: takeWhile_append2)
qed

lemma run_signature:
  assumes "nl \<notin> set ann"
  shows "run (signatureRE ann) prev s g =
     (if at_bol prev
      then map_option (\<lambda>r. (r, drop (Suc (Suc (length ann + length r))) s, Some dq))
             (quoted_identity ann (takeWhile (\<lambda>c. c \<noteq> nl) s))
      else None)"
proof (cases "at_bol prev")
  case False then show ?thesis by (simp add: signatureRE_def)
next
  case True
  let ?P = "\<lambda>c. c \<noteq> nl"
  have all: "\<forall>c\<in>set (ann @ [dq]). ?P c" using assms by (auto simp: nl_def dq_def)
  have lit_app: "lit ann @ [Chars (In [dq]), Open, Star (NotIn [nl]), Close, Chars (In [dq])]
       = lit (ann @ [dq]) @ [Open, Star (NotIn [nl]), Close, Chars (In [dq])]"
    by (simp add: lit_def)
  show ?thesis
  proof (cases "prefix (ann @ [dq]) s")
    case False
    then have "\<not> prefix (ann @ [dq]) (takeWhile ?P s)" using prefix_takeWhile_iff[OF all] by blast
    with False True show ?thesis
      unfolding signatureRE_def lit_app by (simp add: run_lit quoted_identity_def)
  next
    case pre: True
    then have pre': "prefix (ann @ [dq]) (takeWhile ?P s)" using prefix_takeWhile_iff[OF all] by blast
    let ?s' = "drop (Suc (length ann)) s"
    have tw: "takeWhile ?P ?s' = drop (Suc (length ann)) (takeWhile ?P s)"
      using takeWhile_drop_prefix[OF pre all] by simp
    obtain ob cb where g: "g = (ob, cb)" by (cases g)
    have "run (Bol # lit (ann @ [dq]) @ [Open, Star (NotIn [nl]), Close, Chars (In [dq])]) prev s g
        = run [Star (NotIn [nl]), Close, Chars (In [dq])] (Some dq) ?s' (?s', cb)"
      using True pre by (simp add: run_lit g)
    also have "\<dots> = map_option (\<lambda>r. (take (length ?s' - (length ?s' - length r)) ?s', drop (Suc (length r)) ?s', Some dq))
       (upto_last dq (takeWhile ?P ?s'))"
      by (rule run_identity)
    also have "\<dots> = map_option (\<lambda>r. (r, drop (Suc (Suc (length ann + length r))) s, Some dq))
       (upto_last dq (takeWhile ?P ?s'))"
    proof (cases "upto_last dq (takeWhile ?P ?s')")
      case None then show ?thesis by simp
    next
      case (Some r)
      then have "prefix r (takeWhile ?P ?s')" by (rule upto_last_prefix)
      moreover have "prefix (takeWhile ?P ?s') ?s'" by (metis prefix_def takeWhile_dropWhile_id)
      ultimately have "prefix r ?s'" by (rule prefix_order.trans)
      then obtain t where t: "?s' = r @ t" by (auto simp: prefix_def)
      have "take (length ?s' - (length ?s' - length r)) ?s' = r"
        by (subst (1 2 3) t) simp
      moreover have "drop (Suc (length r)) ?s' = drop (Suc (Suc (length ann + length r))) s"
        by (simp add: add.commute)
      ultimately show ?thesis using Some by simp
    qed
    finally show ?thesis using True pre' tw unfolding signatureRE_def lit_app by (simp add: quoted_identity_def)
  qed
qed

lemma split_lines_not_Nil: "split_lines s \<noteq> []"
  by (induction s) (auto split: list.splits)

lemma hd_split_lines: "hd (split_lines s) = takeWhile (\<lambda>c. c \<noteq> nl) s"
  by (induction s) (auto split: list.splits simp: split_lines_not_Nil)

lemma tl_split_lines:
  "tl (split_lines (x # xs)) = (if x = nl then split_lines xs else tl (split_lines xs))"
  by (auto split: list.splits simp: split_lines_not_Nil)

lemma split_lines_eq: "split_lines s = takeWhile (\<lambda>c. c \<noteq> nl) s # tl (split_lines s)"
  using split_lines_not_Nil[of s] hd_split_lines[of s] by (cases "split_lines s") auto

lemma group1_simp [simp]: "group1 (sk, m1, rest, prev) = m1"
  by (simp add: group1_def)

lemma m1_shift:
  "map_option group1 (map_option (\<lambda>(sk, m). (x # sk, m)) z) = map_option group1 z"
  by (cases z) auto

lemma find_signature:
  assumes "nl \<notin> set ann"
  shows "map_option group1 (find (signatureRE ann) prev s) =
         first_of (quoted_identity ann) (if at_bol prev then split_lines s else tl (split_lines s))"
proof (induction s arbitrary: prev)
  case Nil
  show ?case
    by (simp add: run_signature[OF assms] quoted_identity_def)
next
  case (Cons x xs)
  let ?m = "map_option group1"
  let ?line = "takeWhile (\<lambda>c. c \<noteq> nl) (x # xs)"
  have "first_of (quoted_identity ann) (tl (split_lines (x # xs))) =
        first_of (quoted_identity ann) (if at_bol (Some x) then split_lines xs else tl (split_lines xs))"
    unfolding tl_split_lines by (simp add: at_bol_def)
  then have tl: "first_of (quoted_identity ann) (tl (split_lines (x # xs))) =
        ?m (find (signatureRE ann) (Some x) xs)"
    using Cons.IH[of "Some x"] by simp
  have skip: "?m (find (signatureRE ann) prev (x # xs)) = ?m (find (signatureRE ann) (Some x) xs)"
    if "run (signatureRE ann) prev (x # xs) (x # xs, x # xs) = None"
    using that by (simp add: m1_shift)
  have sl: "first_of (quoted_identity ann) (split_lines (x # xs)) =
     (case quoted_identity ann ?line of Some y \<Rightarrow> Some y
      | None \<Rightarrow> first_of (quoted_identity ann) (tl (split_lines (x # xs))))"
  proof -
    have "first_of (quoted_identity ann) (split_lines (x # xs)) =
          first_of (quoted_identity ann) (?line # tl (split_lines (x # xs)))"
      by (rule arg_cong[OF split_lines_eq])
    then show ?thesis by (simp only: first_of.simps)
  qed
  show ?case
  proof (cases "at_bol prev")
    case False
    then have "run (signatureRE ann) prev (x # xs) (x # xs, x # xs) = None"
      by (simp add: run_signature[OF assms])
    then show ?thesis using False tl skip by simp
  next
    case True
    show ?thesis
    proof (cases "quoted_identity ann ?line")
      case None
      then have "run (signatureRE ann) prev (x # xs) (x # xs, x # xs) = None"
        using True by (simp add: run_signature[OF assms])
      then show ?thesis using True None tl skip sl by simp
    next
      case (Some r)
      then have "run (signatureRE ann) prev (x # xs) (x # xs, x # xs)
          = Some (r, drop (Suc (Suc (length ann + length r))) (x # xs), Some dq)"
        using True by (simp add: run_signature[OF assms])
      then have "?m (find (signatureRE ann) prev (x # xs)) = Some r" by simp
      then show ?thesis using True Some sl by simp
    qed
  qed
qed

lemma FindStringSubmatch_signature:
  "nl \<notin> set ann \<Longrightarrow>
   FindStringSubmatch (signatureRE ann) s = first_of (quoted_identity ann) (split_lines s)"
  using find_signature[of ann None s] by (simp add: FindStringSubmatch_def at_bol_def)

lemma FindStringSubmatch_good:
  "FindStringSubmatch goodSignatureRE s = first_of good_signature_line (split_lines s)"
  using FindStringSubmatch_signature[of "''gpg: Good signature from ''" s]
  by (simp add: goodSignatureRE_def signatureRE_def good_signature_line_def nl_def)

lemma FindStringSubmatch_bad:
  "FindStringSubmatch badSignatureRE s = first_of bad_signature_line (split_lines s)"
  using FindStringSubmatch_signature[of "''gpg: BAD signature from ''" s]
  by (simp add: badSignatureRE_def signatureRE_def bad_signature_line_def nl_def)

lemma first_of_None_iff: "first_of f xs = None \<longleftrightarrow> (\<forall>x\<in>set xs. f x = None)"
  by (induction xs) (auto split: option.splits)

lemma first_of_Some_mem: "first_of f xs = Some y \<Longrightarrow> \<exists>x\<in>set xs. f x = Some y"
  by (induction xs) (auto split: option.splits)

text \<open>A pattern of one class: the first byte of the class is the match.\<close>

lemma find_class_None:
  "\<forall>c\<in>set s. \<not> accepts cl c \<Longrightarrow> find [Chars cl] prev s = None"
  by (induction s arbitrary: prev) auto

lemma find_class_Some:
  "\<forall>c\<in>set sk. \<not> accepts cl c \<Longrightarrow> accepts cl x \<Longrightarrow>
   find [Chars cl] prev (sk @ x # xs) = Some (sk, [], xs, Some x)"
  by (induction sk arbitrary: prev) auto

lemma replace_all_class:
  "replace_all [Chars cl] [] prev s pend at0 = pend @ filter (\<lambda>c. \<not> accepts cl c) s"
proof (induction s arbitrary: prev pend at0 rule: length_induct)
  case (1 s)
  show ?case
  proof (cases "\<forall>c\<in>set s. \<not> accepts cl c")
    case True
    then have "find [Chars cl] prev s = None" by (rule find_class_None)
    moreover have "filter (\<lambda>c. \<not> accepts cl c) s = s" using True by (simp add: filter_id_conv)
    ultimately show ?thesis by (subst replace_all.simps) simp
  next
    case False
    then obtain sk x xs where s: "s = sk @ x # xs" "accepts cl x" "\<forall>c\<in>set sk. \<not> accepts cl c"
      using split_list_first_prop[of s "accepts cl"] by blast
    then have f: "find [Chars cl] prev s = Some (sk, [], xs, Some x)"
      using find_class_Some by simp
    have len: "length xs < length s" using s by simp
    have ih: "replace_all [Chars cl] [] (Some x) xs [] False = filter (\<lambda>c. \<not> accepts cl c) xs"
      using 1 len by simp
    have "filter (\<lambda>c. \<not> accepts cl c) s = sk @ filter (\<lambda>c. \<not> accepts cl c) xs"
      using s by (simp add: filter_id_conv)
    then show ?thesis
      using f len ih by (subst replace_all.simps) simp
  qed
qed

lemma sanitize_filter: "sanitize s = filter (\<lambda>c. c \<noteq> esc \<and> c \<noteq> cr) s"
  by (simp add: sanitize_def ReplaceAllString_def unprintableRE_def replace_all_class)

lemma sanitize_clean: "esc \<notin> set (sanitize s)" "cr \<notin> set (sanitize s)"
  by (simp_all add: sanitize_filter)

lemma sanitize_empty_iff: "sanitize s = [] \<longleftrightarrow> set s \<subseteq> {esc, cr}"
  by (auto simp: sanitize_filter filter_empty_conv)

lemma set_Trim: "set (Trim s cs) \<subseteq> set s"
proof -
  have "set (Trim s cs) \<subseteq> set (rev (dropWhile (\<lambda>c. c \<in> set cs) (rev s)))"
    unfolding Trim_def using set_dropWhileD by fastforce
  also have "\<dots> \<subseteq> set s"
    using set_dropWhileD[of _ "\<lambda>c. c \<in> set cs" "rev s"] by auto
  finally show ?thesis .
qed

lemma Trim_ends:
  assumes "Trim s cs \<noteq> []"
  shows "hd (Trim s cs) \<notin> set cs" "last (Trim s cs) \<notin> set cs"
proof -
  let ?P = "\<lambda>c. c \<in> set cs"
  let ?r = "rev (dropWhile ?P (rev s))"
  have t: "Trim s cs = dropWhile ?P ?r" by (simp add: Trim_def)
  show "hd (Trim s cs) \<notin> set cs"
    using assms hd_dropWhile[of ?P ?r] unfolding t by blast
  have rne: "?r \<noteq> []"
  proof
    assume "?r = []"
    then have "dropWhile ?P ?r = []" by (simp only: dropWhile.simps)
    with assms t show False by simp
  qed
  then have "hd (dropWhile ?P (rev s)) \<notin> set cs"
    using hd_dropWhile[of ?P "rev s"] by simp
  then have lr: "last ?r \<notin> set cs" using rne by (simp add: last_rev)
  have "?r = takeWhile ?P ?r @ dropWhile ?P ?r" by simp
  then have "last ?r = last (dropWhile ?P ?r)"
    using assms unfolding t by (metis last_appendR)
  with lr show "last (Trim s cs) \<notin> set cs" unfolding t by simp
qed

section \<open>Lemmas on the operations\<close>

lemma wait_failure_exit:
  "wait p = cmd_wait (Exited n) txt \<Longrightarrow> n = 0 \<or> n = 1 \<Longrightarrow> wait_failure p = None"
  by (auto simp: wait_failure_def)

lemma wait_failure_other_exit:
  "wait p = cmd_wait (Exited n) txt \<Longrightarrow> n \<noteq> 0 \<Longrightarrow> n \<noteq> 1 \<Longrightarrow>
   wait_failure p = Some (Wrapf (OsError txt)
     [T ''gpg verify failed, and not status 1 (was '', D (int n), T ''). stderr: '', Q (stderr p)])"
  by (simp add: wait_failure_def)

lemma VerifyInline_verdict:
  "start_err p = None \<Longrightarrow> wait_failure p = None \<Longrightarrow> VerifyInline gpg p = verdict (stderr p)"
  by (simp add: VerifyInline_def verdict_def FindStringSubmatch_good FindStringSubmatch_bad
      split: option.splits)

lemma Verify_verdict:
  "tempdir_err f = None \<Longrightarrow> write_data_err f = None \<Longrightarrow> write_sig_err f = None \<Longrightarrow>
   start_err p = None \<Longrightarrow> wait_failure p = None \<Longrightarrow> Verify gpg f p = verdict (stderr p)"
  by (simp add: Verify_def verdict_def FindStringSubmatch_good FindStringSubmatch_bad
      split: option.splits)

lemma VerifyInline_Inr:
  "VerifyInline gpg p = Inr st \<Longrightarrow> VerifyInline gpg p = verdict (stderr p)"
  by (cases "start_err p"; cases "wait_failure p")
     (simp_all add: VerifyInline_verdict, simp_all add: VerifyInline_def)

lemma Verify_Inr:
  "Verify gpg f p = Inr st \<Longrightarrow> Verify gpg f p = verdict (stderr p)"
  by (cases "tempdir_err f"; cases "write_data_err f"; cases "write_sig_err f";
      cases "start_err p"; cases "wait_failure p")
     (simp_all add: Verify_verdict, simp_all add: Verify_def)

lemma Decrypt_ok:
  "start_err p = None \<Longrightarrow> wait p = WaitNil \<Longrightarrow>
   Decrypt gpg p = Inr (stdout p,
     (case first_of good_signature_line (split_lines (stderr p)) of
        Some ident \<Rightarrow> zero_Status\<lparr>Signed := sanitize ident, GoodSignature := True\<rparr>
      | None \<Rightarrow> zero_Status)
     \<lparr>Encrypted := map (\<lambda>m1. Trim (sanitize m1) [tab, spc])
                     (FindAllStringSubmatch encryptedRE (stderr p))\<rparr>)"
  by (simp add: Decrypt_def FindStringSubmatch_good zero_Status_def split: option.splits)

lemma Decrypt_Inr:
  "Decrypt gpg p = Inr r \<Longrightarrow> start_err p = None \<and> wait p = WaitNil"
  by (auto simp: Decrypt_def split: option.splits wait_result.splits)

lemma verdict_no_control: "verdict diag = Inr st \<Longrightarrow> no_control (Signed st) \<and> Encrypted st = []"
  by (auto simp: verdict_def no_control_def sanitize_clean zero_Status_def split: option.splits)

lemma no_control_Trim: "no_control s \<Longrightarrow> no_control (Trim s cs)"
  using set_Trim[of s cs] by (auto simp: no_control_def)

lemma verdict_good:
  "verdict diag = Inr st \<Longrightarrow> GoodSignature st \<Longrightarrow>
   \<exists>ident. first_of good_signature_line (split_lines diag) = Some ident \<and> Signed st = sanitize ident"
  by (auto simp: verdict_def zero_Status_def split: option.splits)

lemma first_of_append:
  "\<forall>x\<in>set pre. f x = None \<Longrightarrow> f l = Some y \<Longrightarrow> first_of f (pre @ l # post) = Some y"
  by (induction pre) auto

lemma verdict_signer:
  "verdict diag = Inr st \<Longrightarrow>
   \<exists>ident. (first_of good_signature_line (split_lines diag) = Some ident \<or>
            first_of good_signature_line (split_lines diag) = None \<and>
            first_of bad_signature_line (split_lines diag) = Some ident) \<and>
           Signed st = sanitize ident"
  by (auto simp: verdict_def split: option.splits)

section \<open>Lemmas on the pattern of the recipients\<close>

lemma run_star_stop:
  "\<forall>c\<in>set a. accepts cl c \<and> \<not> accepts d c \<Longrightarrow>
   run (Star cl # Chars d # rs) prev (a @ t) g =
   run (Star cl # Chars d # rs) (if a = [] then prev else Some (last a)) t g"
proof (induction a arbitrary: prev)
  case Nil show ?case by simp
next
  case (Cons x a)
  then have ih: "run (Star cl # Chars d # rs) (Some x) (a @ t) g =
      run (Star cl # Chars d # rs) (if a = [] then Some x else Some (last a)) t g"
    by simp
  from Cons.prems have x: "accepts cl x" "\<not> accepts d x" by simp_all
  show ?case using x ih by (simp split: option.splits)
qed

lemma run_star_then_char:
  assumes "\<forall>c\<in>set a. accepts cl c \<and> \<not> accepts d c" and "\<not> accepts cl y" and "accepts d y"
  shows "run (Star cl # Chars d # rs) prev (a @ y # t) g = run rs (Some y) t g"
  using run_star_stop[OF assms(1), of rs prev "y # t" g] assms(2,3) by simp

lemma run_plus_then_char:
  assumes "a \<noteq> []" and "\<forall>c\<in>set a. accepts cl c \<and> \<not> accepts d c"
    and "\<not> accepts cl y" and "accepts d y"
  shows "run (Plus cl # Chars d # rs) prev (a @ y # t) g = run rs (Some y) t g"
proof -
  obtain x a' where a: "a = x # a'" using assms(1) by (cases a) auto
  then have "\<forall>c\<in>set a'. accepts cl c \<and> \<not> accepts d c" "accepts cl x" using assms(2) by simp_all
  then show ?thesis
    using run_star_then_char[of a' cl d y rs "Some x" t g] assms(3,4) a by simp
qed

lemma run_quoted_group:
  "nl \<notin> set u \<Longrightarrow>
   run [Star (NotIn [nl]), Close, Chars (In [dq]), Chars (In [nl])] prev (u @ dq # nl # t) (ob, cb) =
   Some (take (length ob - Suc (Suc (length t))) ob, t, Some nl)"
proof (induction u arbitrary: prev)
  case Nil
  show ?case by (simp add: nl_def dq_def)
next
  case (Cons x u)
  then have "x \<noteq> nl" "nl \<notin> set u" by auto
  moreover have "nl \<noteq> dq" by (simp add: nl_def dq_def)
  ultimately show ?case using Cons.IH[of "Some x"] by simp
qed

lemma run_encrypted_announcement:
  assumes "at_bol prev" and "chunk_ok (Announcement key ws ident)"
  shows "run encryptedRE prev (emit (Announcement key ws ident) @ t) g = Some (ident, t, Some nl)"
proof -
  obtain ob cb where g: "g = (ob, cb)" by (cases g)
  from assms(2) have key: "key \<noteq> []" "nl \<notin> set key"
    and ws: "set ws \<subseteq> {tab, nl, ff, cr, spc}"
    and ident: "ident \<noteq> []" "nl \<notin> set ident"
    by simp_all
  obtain i u where iu: "ident = i # u" using ident(1) by (cases ident) auto
  let ?s3 = "ident @ dq # nl # t"
  let ?s2 = "ws @ dq # ?s3"
  let ?s1 = "key @ nl # ?s2"
  have e: "emit (Announcement key ws ident) @ t = ''gpg: encrypted with'' @ ?s1" by simp
  have k: "\<forall>c\<in>set key. accepts (NotIn [nl]) c \<and> \<not> accepts (In [nl]) c" using key(2) by auto
  have w: "\<forall>c\<in>set ws. accepts (In [tab, nl, ff, cr, spc]) c \<and> \<not> accepts (In [dq]) c"
    using ws by (auto simp: tab_def nl_def ff_def cr_def spc_def dq_def)
  have 1: "run encryptedRE prev (''gpg: encrypted with'' @ ?s1) g =
        run [Plus (NotIn [nl]), Chars (In [nl]), Star (In [tab, nl, ff, cr, spc]),
             Chars (In [dq]), Open, Plus (NotIn [nl]), Close, Chars (In [dq]), Chars (In [nl])]
          (Some (CHR ''h'')) ?s1 g"
    unfolding encryptedRE_def using assms(1) by (simp add: run_lit)
  have 2: "\<dots> = run [Star (In [tab, nl, ff, cr, spc]),
             Chars (In [dq]), Open, Plus (NotIn [nl]), Close, Chars (In [dq]), Chars (In [nl])]
          (Some nl) ?s2 g"
    by (rule run_plus_then_char[OF key(1) k]) simp_all
  have 3: "\<dots> = run [Open, Plus (NotIn [nl]), Close, Chars (In [dq]), Chars (In [nl])]
          (Some dq) ?s3 g"
    by (rule run_star_then_char[OF w]) (simp_all add: tab_def nl_def ff_def cr_def spc_def dq_def)
  have 4: "\<dots> = run [Star (NotIn [nl]), Close, Chars (In [dq]), Chars (In [nl])]
          (Some i) (u @ dq # nl # t) (?s3, cb)"
  proof -
    have "i \<noteq> nl" using ident(2) iu by auto
    then show ?thesis by (simp add: g iu)
  qed
  have 5: "\<dots> = Some (take (length ?s3 - Suc (Suc (length t))) ?s3, t, Some nl)"
    using ident(2) by (intro run_quoted_group) (simp add: iu)
  have 6: "take (length ?s3 - Suc (Suc (length t))) ?s3 = ident" by simp
  show ?thesis unfolding e using 1 2 3 4 5 6 by simp
qed

lemma run_encrypted_fail:
  "\<not> at_bol prev \<or> \<not> prefix ''gpg: encrypted with'' s \<Longrightarrow> run encryptedRE prev s g = None"
  unfolding encryptedRE_def by (auto simp: run_lit)

lemma run_suffix:
  "run rs prev s g = Some (m, rest, q) \<Longrightarrow> length rest \<le> length s"
  by (induction rs prev s g arbitrary: m rest q rule: run.induct)
     (auto split: if_splits option.splits)

lemma run_encrypted_progress:
  assumes "run encryptedRE prev s g = Some (m, rest, q)"
  shows "length rest < length s"
proof -
  let ?rs = "[Plus (NotIn [nl]), Chars (In [nl]), Star (In [tab, nl, ff, cr, spc]),
      Chars (In [dq]), Open, Plus (NotIn [nl]), Close, Chars (In [dq]), Chars (In [nl])]"
  have b: "at_bol prev"
  proof (rule ccontr)
    assume "\<not> at_bol prev"
    then have "run encryptedRE prev s g = None" by (intro run_encrypted_fail) simp
    with assms show False by simp
  qed
  have pre: "prefix ''gpg: encrypted with'' s"
  proof (rule ccontr)
    assume "\<not> prefix ''gpg: encrypted with'' s"
    then have "run encryptedRE prev s g = None" by (intro run_encrypted_fail) simp
    with assms show False by simp
  qed
  define n where "n = length ''gpg: encrypted with''"
  have "run ?rs (Some (CHR ''h'')) (drop (length ''gpg: encrypted with'') s) g = Some (m, rest, q)"
    using assms b pre unfolding encryptedRE_def by (simp add: run_lit)
  then have "length rest \<le> length (drop (length ''gpg: encrypted with'') s)" by (rule run_suffix)
  then have 1: "length rest \<le> length s - n" by (simp add: n_def)
  have 2: "n \<le> length s" using pre prefix_length_le unfolding n_def by blast
  have 3: "0 < n" by (simp add: n_def)
  from 1 2 3 show ?thesis by arith
qed

lemma find_progress:
  "find encryptedRE prev s = Some (sk, m, rest, q) \<Longrightarrow> length rest < length s"
proof (induction s arbitrary: prev sk)
  case Nil
  then show ?case using run_encrypted_fail[of prev "[]"] by simp
next
  case (Cons x xs)
  show ?case
  proof (cases "run encryptedRE prev (x # xs) (x # xs, x # xs)")
    case None
    with Cons.prems obtain sk' where "find encryptedRE (Some x) xs = Some (sk', m, rest, q)"
      by auto
    then have "length rest < length xs" by (rule Cons.IH)
    then show ?thesis by simp
  next
    case (Some r)
    with Cons.prems have "run encryptedRE prev (x # xs) (x # xs, x # xs) = Some (m, rest, q)"
      by simp
    then show ?thesis by (rule run_encrypted_progress)
  qed
qed

lemma not_prefix_line:
  assumes "nl \<notin> set pfx" and "\<not> prefix pfx l"
  shows "\<not> prefix pfx (l @ nl # t)"
proof
  assume "prefix pfx (l @ nl # t)"
  then consider "prefix pfx l" | us where "pfx = l @ us" "prefix us (nl # t)"
    unfolding prefix_append by blast
  then show False
  proof cases
    case 1 with assms(2) show False by simp
  next
    case 2
    show False
    proof (cases us)
      case Nil with 2 assms(2) show False by simp
    next
      case (Cons u us')
      with 2 have "u = nl" by simp
      with 2 Cons assms(1) show False by simp
    qed
  qed
qed

lemma find_encrypted_rest_of_line:
  assumes "nl \<notin> set l"
  shows "\<not> at_bol prev \<or> \<not> prefix ''gpg: encrypted with'' (l @ nl # t) \<Longrightarrow>
         find encryptedRE prev (l @ nl # t) =
         map_option (\<lambda>(sk, m). (l @ nl # sk, m)) (find encryptedRE (Some nl) t)"
  using assms
proof (induction l arbitrary: prev)
  case Nil
  then have "run encryptedRE prev (nl # t) (nl # t, nl # t) = None"
    by (intro run_encrypted_fail) simp
  then show ?case by simp
next
  case (Cons x l)
  have "run encryptedRE prev (x # l @ nl # t) (x # l @ nl # t, x # l @ nl # t) = None"
    using Cons.prems(1) by (intro run_encrypted_fail) simp
  moreover have "\<not> at_bol (Some x)" using Cons.prems(2) by (auto simp: at_bol_def)
  then have "find encryptedRE (Some x) (l @ nl # t) =
         map_option (\<lambda>(sk, m). (l @ nl # sk, m)) (find encryptedRE (Some nl) t)"
    using Cons.prems(2) by (intro Cons.IH) simp_all
  ultimately show ?case
    by (cases "find encryptedRE (Some nl) t") auto
qed

text \<open>A pattern that asks for a newline does not match a text without one.\<close>

lemma run_needs_newline:
  "nl \<notin> set s \<Longrightarrow> Chars (In [nl]) \<in> set rs \<Longrightarrow> run rs prev s g = None"
  by (induction rs prev s g rule: run.induct) (auto split: option.splits)

lemma run_group_not_closed:
  "nl \<notin> set v \<Longrightarrow> \<not> (v \<noteq> [] \<and> last v = dq) \<Longrightarrow>
   run [Star (NotIn [nl]), Close, Chars (In [dq]), Chars (In [nl])] prev (v @ nl # t) (ob, cb) = None"
proof (induction v arbitrary: prev)
  case Nil
  show ?case by (simp add: nl_def dq_def)
next
  case (Cons y w)
  from Cons.prems have y: "y \<noteq> nl" and w: "nl \<notin> set w" by auto
  from Cons.prems(2) have lw: "\<not> (w \<noteq> [] \<and> last w = dq)" by auto
  have ih: "run [Star (NotIn [nl]), Close, Chars (In [dq]), Chars (In [nl])] (Some y) (w @ nl # t) (ob, cb) = None"
    using w lw by (rule Cons.IH)
  have fb: "run [Close, Chars (In [dq]), Chars (In [nl])] prev (y # w @ nl # t) (ob, cb) = None"
  proof (cases w)
    case Nil
    then have "y \<noteq> dq" using Cons.prems(2) by simp
    then show ?thesis by simp
  next
    case (Cons z w')
    then have "z \<noteq> nl" using w by auto
    then show ?thesis using Cons by simp
  qed
  show ?case using y ih fb by simp
qed

lemma run_not_identity_line:
  assumes "\<not> identity_line u"
  shows "run [Plus (NotIn [nl]), Close, Chars (In [dq]), Chars (In [nl])] prev u (ob, cb) = None"
proof (cases "nl \<in> set u")
  case False
  then show ?thesis by (intro run_needs_newline) simp_all
next
  case True
  define v where "v = takeWhile (\<lambda>c. c \<noteq> nl) u"
  have nv: "nl \<notin> set v" unfolding v_def by (auto dest: set_takeWhileD)
  have "dropWhile (\<lambda>c. c \<noteq> nl) u \<noteq> []" using True by (simp add: dropWhile_eq_Nil_conv)
  moreover have "hd (dropWhile (\<lambda>c. c \<noteq> nl) u) = nl"
    using calculation hd_dropWhile[of "\<lambda>c. c \<noteq> nl" u] by blast
  ultimately obtain t where "dropWhile (\<lambda>c. c \<noteq> nl) u = nl # t"
    by (cases "dropWhile (\<lambda>c. c \<noteq> nl) u") auto
  then have u: "u = v @ nl # t" unfolding v_def by (metis takeWhile_dropWhile_id)
  from assms True have short: "\<not> (2 \<le> length v \<and> last v = dq)"
    by (simp add: identity_line_def v_def Let_def)
  show ?thesis
  proof (cases v)
    case Nil
    then show ?thesis unfolding u by simp
  next
    case (Cons x w)
    then have x: "x \<noteq> nl" and w: "nl \<notin> set w" using nv by auto
    from short Cons have lw: "\<not> (w \<noteq> [] \<and> last w = dq)"
      by (cases w) auto
    have "run [Star (NotIn [nl]), Close, Chars (In [dq]), Chars (In [nl])] (Some x) (w @ nl # t) (ob, cb) = None"
      using w lw by (rule run_group_not_closed)
    then show ?thesis unfolding u Cons using x by simp
  qed
qed

lemma run_encrypted_other:
  assumes "nl \<notin> set l" and "\<not> opens_announcement l t"
  shows "run encryptedRE prev (l @ nl # t) g = None"
proof (cases "at_bol prev \<and> prefix ''gpg: encrypted with'' l")
  case False
  have "nl \<notin> set ''gpg: encrypted with''" by (simp add: nl_def)
  then have "\<not> prefix ''gpg: encrypted with'' l \<Longrightarrow> \<not> prefix ''gpg: encrypted with'' (l @ nl # t)"
    by (rule not_prefix_line)
  then show ?thesis using False by (intro run_encrypted_fail) blast
next
  case True
  then obtain key where l: "l = ''gpg: encrypted with'' @ key" by (auto simp: prefix_def)
  obtain ob cb where g: "g = (ob, cb)" by (cases g)
  let ?rs2 = "[Star (In [tab, nl, ff, cr, spc]), Chars (In [dq]), Open, Plus (NotIn [nl]), Close,
      Chars (In [dq]), Chars (In [nl])]"
  have start: "run encryptedRE prev (l @ nl # t) g =
      run (Plus (NotIn [nl]) # Chars (In [nl]) # ?rs2) (Some (CHR ''h'')) (key @ nl # t) g"
    unfolding encryptedRE_def l using True by (simp add: run_lit)
  show ?thesis
  proof (cases key)
    case Nil
    then show ?thesis unfolding start by simp
  next
    case (Cons k key')
    then have kne: "key \<noteq> []" by simp
    have kk: "\<forall>c\<in>set key. accepts (NotIn [nl]) c \<and> \<not> accepts (In [nl]) c"
      using assms(1) l by auto
    have 1: "run (Plus (NotIn [nl]) # Chars (In [nl]) # ?rs2) (Some (CHR ''h'')) (key @ nl # t) g =
        run ?rs2 (Some nl) t g"
      by (rule run_plus_then_char[OF kne kk]) simp_all
    define w where "w = takeWhile (\<lambda>c. c \<in> set [tab, nl, ff, cr, spc]) t"
    define d where "d = dropWhile (\<lambda>c. c \<in> set [tab, nl, ff, cr, spc]) t"
    have t: "t = w @ d" by (simp add: w_def d_def)
    have ww: "\<forall>c\<in>set w. accepts (In [tab, nl, ff, cr, spc]) c \<and> \<not> accepts (In [dq]) c"
      unfolding w_def
      by (auto dest!: set_takeWhileD simp: tab_def nl_def ff_def cr_def spc_def dq_def)
    have 2: "run ?rs2 (Some nl) t g = run ?rs2 (if w = [] then Some nl else Some (last w)) d g"
      unfolding t by (rule run_star_stop[OF ww])
    have l_ne: "l \<noteq> ''gpg: encrypted with''" using l kne by simp
    have 3: "run ?rs2 q d g = None" for q
    proof (cases d)
      case Nil
      then show ?thesis by simp
    next
      case (Cons x u)
      have "d \<noteq> []" using Cons by simp
      then have nx: "\<not> accepts (In [tab, nl, ff, cr, spc]) x"
        using hd_dropWhile[of "\<lambda>c. c \<in> set [tab, nl, ff, cr, spc]" t] Cons
        unfolding d_def by auto
      show ?thesis
      proof (cases "x = dq")
        case False
        then show ?thesis unfolding Cons using nx by simp
      next
        case xd: True
        have "\<not> identity_line u"
          using assms(2) True l_ne Cons xd unfolding d_def by (simp add: opens_announcement_def)
        then have "run [Plus (NotIn [nl]), Close, Chars (In [dq]), Chars (In [nl])] (Some dq) u (u, cb) = None"
          by (rule run_not_identity_line)
        then show ?thesis unfolding Cons g using nx xd by simp
      qed
    qed
    show ?thesis unfolding start 1 2 by (rule 3)
  qed
qed

lemma find_encrypted_other:
  assumes "nl \<notin> set l" and "\<not> opens_announcement l t"
  shows "find encryptedRE prev (l @ nl # t) =
         map_option (\<lambda>(sk, m). (l @ nl # sk, m)) (find encryptedRE (Some nl) t)"
proof (cases l)
  case Nil
  have "run encryptedRE prev (nl # t) (nl # t, nl # t) = None"
    using run_encrypted_other[OF assms, of prev] Nil by simp
  then show ?thesis using Nil by simp
next
  case (Cons x l')
  have r: "run encryptedRE prev (x # l' @ nl # t) (x # l' @ nl # t, x # l' @ nl # t) = None"
    using run_encrypted_other[OF assms, of prev] Cons by simp
  have "x \<noteq> nl" "nl \<notin> set l'" using assms(1) Cons by auto
  then have "find encryptedRE (Some x) (l' @ nl # t) =
         map_option (\<lambda>(sk, m). (l' @ nl # sk, m)) (find encryptedRE (Some nl) t)"
    by (intro find_encrypted_rest_of_line) (simp_all add: at_bol_def)
  then show ?thesis using r Cons
    by (cases "find encryptedRE (Some nl) t") auto
qed

lemma find_encrypted_last_piece:
  "nl \<notin> set rest \<Longrightarrow> find encryptedRE prev rest = None"
proof (induction rest arbitrary: prev)
  case Nil
  have "run encryptedRE prev [] ([], []) = None"
    by (intro run_needs_newline) (simp_all add: encryptedRE_def)
  then show ?case by simp
next
  case (Cons x rest)
  have "run encryptedRE prev (x # rest) (x # rest, x # rest) = None"
    using Cons.prems by (intro run_needs_newline) (simp_all add: encryptedRE_def)
  moreover have "find encryptedRE (Some x) rest = None" using Cons by simp
  ultimately show ?case by simp
qed

lemma find_at:
  "run re prev s (s, s) = Some m \<Longrightarrow> find re prev s = Some ([], m)"
  by (cases s) auto

lemma all_matches_skip:
  assumes "find encryptedRE prev s = map_option (\<lambda>(sk, m). (pre @ sk, m)) (find encryptedRE prev' t)"
    and "length t \<le> length s"
  shows "all_matches encryptedRE prev s adj = all_matches encryptedRE prev' t adj'"
proof (cases "find encryptedRE prev' t")
  case None
  then show ?thesis using assms(1)
    by (subst (1 2) all_matches.simps) simp
next
  case (Some r)
  obtain sk m rest q where r: "r = (sk, m, rest, q)" by (cases r)
  have "length rest < length t" using Some r find_progress by blast
  moreover from this have "length rest < length s" using assms(2) by simp
  ultimately show ?thesis using assms(1) Some r
    by (subst (1 2) all_matches.simps) simp
qed

lemma stream_ok_chunks: "stream_ok cs rest \<Longrightarrow> \<forall>c\<in>set cs. chunk_ok c"
  by (induction cs rest rule: stream_ok.induct) auto

lemma all_matches_stream:
  "stream_ok cs rest \<Longrightarrow> at_bol prev \<Longrightarrow>
   all_matches encryptedRE prev (stream cs @ rest) adj = identities cs"
proof (induction cs arbitrary: prev adj)
  case Nil
  then have "find encryptedRE prev rest = None"
    by (intro find_encrypted_last_piece) simp
  then show ?case by (subst all_matches.simps) (simp add: stream_def)
next
  case (Cons c cs)
  then have oks: "stream_ok cs rest" by (cases c) simp_all
  have s: "stream (c # cs) @ rest = emit c @ stream cs @ rest" by (simp add: stream_def)
  have ih: "all_matches encryptedRE (Some nl) (stream cs @ rest) adj' = identities cs" for adj'
    using oks by (intro Cons.IH) (simp_all add: at_bol_def)
  show ?case
  proof (cases c)
    case (Announcement key ws ident)
    let ?t = "stream cs @ rest"
    have ok: "chunk_ok c" using Cons.prems(1) Announcement by simp
    have "run encryptedRE prev (emit c @ ?t) (emit c @ ?t, emit c @ ?t) = Some (ident, ?t, Some nl)"
      using Cons.prems(2) ok unfolding Announcement by (rule run_encrypted_announcement)
    then have f: "find encryptedRE prev (emit c @ ?t) = Some ([], ident, ?t, Some nl)"
      by (rule find_at)
    have len: "length ?t < length (emit c @ ?t)" unfolding Announcement by simp
    have "all_matches encryptedRE prev (emit c @ ?t) adj =
          ident # all_matches encryptedRE (Some nl) ?t True"
      using f len by (subst all_matches.simps) simp
    then show ?thesis unfolding s using ih Announcement by simp
  next
    case (Other l)
    let ?t = "stream cs @ rest"
    have l: "nl \<notin> set l" "\<not> opens_announcement l ?t" using Cons.prems(1) Other by simp_all
    have "find encryptedRE prev (l @ nl # ?t) =
         map_option (\<lambda>(sk, m). (l @ nl # sk, m)) (find encryptedRE (Some nl) ?t)"
      using l by (rule find_encrypted_other)
    then have "find encryptedRE prev (emit c @ ?t) =
         map_option (\<lambda>(sk, m). ((l @ [nl]) @ sk, m)) (find encryptedRE (Some nl) ?t)"
      unfolding Other by simp
    moreover have "length ?t \<le> length (emit c @ ?t)" by simp
    ultimately have "all_matches encryptedRE prev (emit c @ ?t) adj =
        all_matches encryptedRE (Some nl) ?t adj"
      by (rule all_matches_skip)
    then show ?thesis unfolding s using ih Other by simp
  qed
qed

lemma FindAllStringSubmatch_stream:
  "stream_ok cs rest \<Longrightarrow> FindAllStringSubmatch encryptedRE (stream cs @ rest) = identities cs"
  unfolding FindAllStringSubmatch_def by (rule all_matches_stream) (simp_all add: at_bol_def)

lemma sanitize_id: "no_control s \<Longrightarrow> sanitize s = s"
  by (auto simp: sanitize_filter no_control_def filter_id_conv)

lemma Trim_id:
  assumes "s \<noteq> []" and "hd s \<notin> set cs" and "last s \<notin> set cs"
  shows "Trim s cs = s"
proof -
  have "hd (rev s) \<notin> set cs" using assms(1,3) by (simp add: hd_rev)
  then have "dropWhile (\<lambda>c. c \<in> set cs) (rev s) = rev s"
    using assms(1) by (cases "rev s") auto
  moreover have "dropWhile (\<lambda>c. c \<in> set cs) s = s"
    using assms(1,2) by (cases s) auto
  ultimately show ?thesis by (simp add: Trim_def)
qed

lemma identities_nonempty:
  "\<forall>c\<in>set cs. chunk_ok c \<Longrightarrow> \<forall>ident\<in>set (identities cs). ident \<noteq> []"
  by (induction cs rule: identities.induct) auto

lemma first_line:
  assumes "nl \<in> set u"
  shows "\<exists>t. u = takeWhile (\<lambda>c. c \<noteq> nl) u @ nl # t"
proof -
  have "dropWhile (\<lambda>c. c \<noteq> nl) u \<noteq> []" using assms by (simp add: dropWhile_eq_Nil_conv)
  moreover from this have "hd (dropWhile (\<lambda>c. c \<noteq> nl) u) = nl"
    using hd_dropWhile[of "\<lambda>c. c \<noteq> nl" u] by blast
  ultimately obtain t where "dropWhile (\<lambda>c. c \<noteq> nl) u = nl # t"
    by (cases "dropWhile (\<lambda>c. c \<noteq> nl) u") auto
  then have "u = takeWhile (\<lambda>c. c \<noteq> nl) u @ nl # t" by (metis takeWhile_dropWhile_id)
  then show ?thesis ..
qed

text \<open>Every text can be read as a stream: nothing is assumed of the diagnostic stream.\<close>

lemma stream_reading: "\<exists>cs rest. s = stream cs @ rest \<and> stream_ok cs rest"
proof (induction s rule: length_induct)
  case (1 s)
  show ?case
  proof (cases "nl \<in> set s")
    case False
    then have "s = stream [] @ s \<and> stream_ok [] s" by (simp add: stream_def)
    then show ?thesis by blast
  next
    case True
    define l where "l = takeWhile (\<lambda>c. c \<noteq> nl) s"
    obtain t where s: "s = l @ nl # t" using first_line[OF True] unfolding l_def by blast
    have nl_l: "nl \<notin> set l" unfolding l_def by (auto dest: set_takeWhileD)
    show ?thesis
    proof (cases "opens_announcement l t")
      case False
      have "length t < length s" using s by simp
      then obtain cs rest where t: "t = stream cs @ rest" "stream_ok cs rest" using 1 by blast
      have "s = stream (Other l # cs) @ rest" using s t(1) by (simp add: stream_def)
      moreover have "stream_ok (Other l # cs) rest" using nl_l False t by simp
      ultimately show ?thesis by blast
    next
      case opens: True
      then obtain key where l: "l = ''gpg: encrypted with'' @ key"
        by (auto simp: opens_announcement_def prefix_def)
      have key: "key \<noteq> []" "nl \<notin> set key"
        using opens l nl_l by (auto simp: opens_announcement_def)
      define w where "w = takeWhile (\<lambda>c. c \<in> set [tab, nl, ff, cr, spc]) t"
      define d where "d = dropWhile (\<lambda>c. c \<in> set [tab, nl, ff, cr, spc]) t"
      have tw: "t = w @ d" by (simp add: w_def d_def)
      have w: "set w \<subseteq> {tab, nl, ff, cr, spc}" unfolding w_def by (auto dest: set_takeWhileD)
      obtain u where d: "d = dq # u" and u: "identity_line u"
        using opens unfolding opens_announcement_def d_def[symmetric]
        by (cases d) auto
      define v where "v = takeWhile (\<lambda>c. c \<noteq> nl) u"
      have nu: "nl \<in> set u" and v2: "2 \<le> length v" and lv: "last v = dq"
        using u by (simp_all add: identity_line_def Let_def v_def)
      obtain t2 where ut: "u = v @ nl # t2" using first_line[OF nu] unfolding v_def by blast
      have nv: "nl \<notin> set v" unfolding v_def by (auto dest: set_takeWhileD)
      define ident where "ident = butlast v"
      have vne: "v \<noteq> []" using v2 by auto
      then have v: "v = ident @ [dq]" using lv unfolding ident_def by (metis append_butlast_last_id)
      have ident: "ident \<noteq> []" "nl \<notin> set ident" using v2 nv v by auto
      have "length t2 < length s" unfolding s tw d ut by simp
      then obtain cs rest where t2: "t2 = stream cs @ rest" "stream_ok cs rest" using 1 by blast
      have "s = stream (Announcement key w ident # cs) @ rest"
        unfolding s l tw d ut v t2(1) by (simp add: stream_def)
      moreover have "stream_ok (Announcement key w ident # cs) rest"
        using key w ident t2(2) by simp
      ultimately show ?thesis by blast
    qed
  qed
qed

section \<open>Lemmas on the messages of the errors\<close>






lemma high_not_control: "(128::nat) \<le> of_char c \<Longrightarrow> c \<noteq> esc \<and> c \<noteq> cr"
  by (auto simp: esc_def cr_def)






















lemma Error_text:
  "Error tbl e = (case e of OsError t \<Rightarrow> t
                  | Wrapf c ps \<Rightarrow> Sprintf tbl ps @ '': '' @ Error tbl c
                  | Errorf ps \<Rightarrow> Sprintf tbl ps)"
  by (cases e) simp_all

section \<open>The claims\<close>

text \<open>
  C1. When the subprocess of \<open>Verify\<close> or \<open>VerifyInline\<close> has started and exits with
  status 0 or 1, and no line of the diagnostic stream is a good-signature line or a
  bad-signature line, the operation returns the error "signature not good nor bad" and
  no Status.
\<close>

theorem C1_indeterminate:
  assumes "tempdir_err f = None" and "write_data_err f = None" and "write_sig_err f = None"
    and "start_err p = None"
    and "wait p = cmd_wait (Exited n) txt" and "n = 0 \<or> n = 1"
    and "\<forall>l\<in>set (split_lines (stderr p)). good_signature_line l = None \<and> bad_signature_line l = None"
  shows "Verify gpg f p = Inl (Errorf [T ''signature not good nor bad. What? '', Q (stderr p)]) \<and>
         VerifyInline gpg p = Inl (Errorf [T ''signature not good nor bad. What? '', Q (stderr p)])"
proof -
  have w: "wait_failure p = None" using assms(5,6) by (rule wait_failure_exit)
  have g: "first_of good_signature_line (split_lines (stderr p)) = None"
    using assms(7) by (simp add: first_of_None_iff)
  have b: "first_of bad_signature_line (split_lines (stderr p)) = None"
    using assms(7) by (simp add: first_of_None_iff)
  have v: "verdict (stderr p) = Inl (Errorf [T ''signature not good nor bad. What? '', Q (stderr p)])"
    by (simp add: verdict_def g b)
  show ?thesis
    using Verify_verdict[OF assms(1-4) w] VerifyInline_verdict[OF assms(4) w] v by simp
qed

theorem C1_indeterminate_witness:
  "Verify (New ''gpg'') \<lparr>tempdir_err = None, write_data_err = None, write_sig_err = None\<rparr>
     \<lparr>start_err = None, wait = WaitExitError ''exit status 1'' (Some 1), stdout = [],
      stderr = ''gpg: no valid OpenPGP data found.'' @ [nl]\<rparr>
   = Inl (Errorf [T ''signature not good nor bad. What? '', Q (''gpg: no valid OpenPGP data found.'' @ [nl])]) \<and>
   VerifyInline (New ''gpg'')
     \<lparr>start_err = None, wait = WaitExitError ''exit status 1'' (Some 1), stdout = [],
      stderr = ''gpg: no valid OpenPGP data found.'' @ [nl]\<rparr>
   = Inl (Errorf [T ''signature not good nor bad. What? '', Q (''gpg: no valid OpenPGP data found.'' @ [nl])])"
  using C1_indeterminate[of "\<lparr>tempdir_err = None, write_data_err = None, write_sig_err = None\<rparr>"
      "\<lparr>start_err = None, wait = WaitExitError ''exit status 1'' (Some 1), stdout = [],
        stderr = ''gpg: no valid OpenPGP data found.'' @ [nl]\<rparr>" 1 "''exit status 1''" "New ''gpg''"]
  by (simp add: good_signature_line_def bad_signature_line_def quoted_identity_def nl_def dq_def)

text \<open>
  C2, as stated, fails: the quoted identity of a bad-signature line may be empty (or hold
  only bytes that the sanitizer removes), and the signer is then the empty string. Here
  the stream is the one line \<^verbatim>\<open>gpg: BAD signature from ""\<close>: it is a bad-signature
  line, no line is a good-signature line, the exit status is 1, and both operations
  return a Status with an empty signer.
\<close>

theorem C2_empty_signer_counterexample:
  "bad_signature_line (''gpg: BAD signature from '' @ [dq, dq]) = Some [] \<and>
   first_of good_signature_line (split_lines (''gpg: BAD signature from '' @ [dq, dq, nl])) = None \<and>
   Verify (New ''gpg'') \<lparr>tempdir_err = None, write_data_err = None, write_sig_err = None\<rparr>
     \<lparr>start_err = None, wait = cmd_wait (Exited 1) ''exit status 1'', stdout = [],
      stderr = ''gpg: BAD signature from '' @ [dq, dq, nl]\<rparr>
   = Inr \<lparr>Signed = [], Encrypted = [], GoodSignature = False, Warnings = []\<rparr> \<and>
   VerifyInline (New ''gpg'')
     \<lparr>start_err = None, wait = cmd_wait (Exited 1) ''exit status 1'', stdout = [],
      stderr = ''gpg: BAD signature from '' @ [dq, dq, nl]\<rparr>
   = Inr \<lparr>Signed = [], Encrypted = [], GoodSignature = False, Warnings = []\<rparr>"
  by (simp add: Verify_def VerifyInline_def wait_failure_def FindStringSubmatch_def
      goodSignatureRE_def badSignatureRE_def lit_def at_bol_def zero_Status_def
      sanitize_def ReplaceAllString_def replace_all.simps unprintableRE_def
      good_signature_line_def bad_signature_line_def quoted_identity_def
      nl_def dq_def esc_def cr_def)

text \<open>
  C2, amended. When the subprocess has started and exits with status 0 or 1, the stream
  has a bad-signature line and no good-signature line, \<open>Verify\<close> and \<open>VerifyInline\<close>
  return a Status with \<open>GoodSignature = False\<close> whose signer is the sanitized quoted
  identity of the first bad-signature line; the signer is empty exactly when every byte of
  that identity is an escape or a carriage return.
\<close>

theorem C2_bad_signature:
  assumes "tempdir_err f = None" and "write_data_err f = None" and "write_sig_err f = None"
    and "start_err p = None"
    and "wait p = cmd_wait (Exited n) txt" and "n = 0 \<or> n = 1"
    and "\<forall>l\<in>set (split_lines (stderr p)). good_signature_line l = None"
    and "\<exists>l\<in>set (split_lines (stderr p)). bad_signature_line l \<noteq> None"
  shows "\<exists>ident. first_of bad_signature_line (split_lines (stderr p)) = Some ident \<and>
           Verify gpg f p =
             Inr \<lparr>Signed = sanitize ident, Encrypted = [], GoodSignature = False, Warnings = []\<rparr> \<and>
           VerifyInline gpg p =
             Inr \<lparr>Signed = sanitize ident, Encrypted = [], GoodSignature = False, Warnings = []\<rparr> \<and>
           (sanitize ident = [] \<longleftrightarrow> set ident \<subseteq> {esc, cr})"
proof -
  have w: "wait_failure p = None" using assms(5,6) by (rule wait_failure_exit)
  have g: "first_of good_signature_line (split_lines (stderr p)) = None"
    using assms(7) by (simp add: first_of_None_iff)
  have "first_of bad_signature_line (split_lines (stderr p)) \<noteq> None"
    using assms(8) by (simp add: first_of_None_iff)
  then obtain ident where b: "first_of bad_signature_line (split_lines (stderr p)) = Some ident"
    by blast
  let ?st = "\<lparr>Signed = sanitize ident, Encrypted = [], GoodSignature = False, Warnings = []\<rparr>"
  have v: "verdict (stderr p) = Inr ?st" by (simp add: verdict_def g b zero_Status_def)
  have "Verify gpg f p = Inr ?st" using Verify_verdict[OF assms(1-4) w] v by simp
  moreover have "VerifyInline gpg p = Inr ?st" using VerifyInline_verdict[OF assms(4) w] v by simp
  moreover have "sanitize ident = [] \<longleftrightarrow> set ident \<subseteq> {esc, cr}" by (rule sanitize_empty_iff)
  ultimately show ?thesis using b by blast
qed

theorem C2_bad_signature_witness:
  "Verify (New ''gpg'') \<lparr>tempdir_err = None, write_data_err = None, write_sig_err = None\<rparr>
     \<lparr>start_err = None, wait = WaitExitError ''exit status 1'' (Some 1), stdout = [],
      stderr = ''gpg: BAD signature from '' @ [dq] @ ''Eve <eve@example.com>'' @ [dq, nl]\<rparr>
   = Inr \<lparr>Signed = ''Eve <eve@example.com>'', Encrypted = [], GoodSignature = False, Warnings = []\<rparr> \<and>
   VerifyInline (New ''gpg'')
     \<lparr>start_err = None, wait = WaitExitError ''exit status 1'' (Some 1), stdout = [],
      stderr = ''gpg: BAD signature from '' @ [dq] @ ''Eve <eve@example.com>'' @ [dq, nl]\<rparr>
   = Inr \<lparr>Signed = ''Eve <eve@example.com>'', Encrypted = [], GoodSignature = False, Warnings = []\<rparr>"
  using C2_bad_signature[of "\<lparr>tempdir_err = None, write_data_err = None, write_sig_err = None\<rparr>"
      "\<lparr>start_err = None, wait = WaitExitError ''exit status 1'' (Some 1), stdout = [],
        stderr = ''gpg: BAD signature from '' @ [dq] @ ''Eve <eve@example.com>'' @ [dq, nl]\<rparr>"
      1 "''exit status 1''" "New ''gpg''"]
  by (simp add: good_signature_line_def bad_signature_line_def quoted_identity_def sanitize_filter
      nl_def dq_def esc_def cr_def)

text \<open>
  C3. Let the subprocess of \<open>Verify\<close> or \<open>VerifyInline\<close> have started. If it exits with a
  status other than 0 and 1, or is ended by a signal, or \<open>cmd.Wait\<close> fails with an exit
  error without a Unix status or with another error, the operation returns the error of
  \<open>cmd.Wait\<close> wrapped with a message, and no Status. If it exits with status 0 or 1 the
  result is that of parsing the diagnostic stream, whatever the status was.
\<close>

theorem C3_exit_status:
  assumes "tempdir_err f = None" and "write_data_err f = None" and "write_sig_err f = None"
    and "start_err p = None"
  shows "(wait p = cmd_wait (Exited n) txt \<and> n \<noteq> 0 \<and> n \<noteq> 1 \<longrightarrow>
            (\<exists>msg. Verify gpg f p = Inl (Wrapf (OsError txt) msg) \<and>
                   VerifyInline gpg p = Inl (Wrapf (OsError txt) msg))) \<and>
         (wait p = cmd_wait Signaled txt \<or> wait p = WaitExitError txt None \<or> wait p = WaitOther txt \<longrightarrow>
            (\<exists>msg. Verify gpg f p = Inl (Wrapf (OsError txt) msg) \<and>
                   VerifyInline gpg p = Inl (Wrapf (OsError txt) msg))) \<and>
         (wait p = cmd_wait (Exited n) txt \<and> (n = 0 \<or> n = 1) \<longrightarrow>
            Verify gpg f p = verdict (stderr p) \<and> VerifyInline gpg p = verdict (stderr p))"
proof (intro conjI impI)
  assume a: "wait p = cmd_wait (Exited n) txt \<and> n \<noteq> 0 \<and> n \<noteq> 1"
  then have "wait_failure p = Some (Wrapf (OsError txt)
     [T ''gpg verify failed, and not status 1 (was '', D (int n), T ''). stderr: '', Q (stderr p)])"
    using wait_failure_other_exit by blast
  then show "\<exists>msg. Verify gpg f p = Inl (Wrapf (OsError txt) msg) \<and>
                   VerifyInline gpg p = Inl (Wrapf (OsError txt) msg)"
    using assms by (simp add: Verify_def VerifyInline_def)
next
  assume "wait p = cmd_wait Signaled txt \<or> wait p = WaitExitError txt None \<or> wait p = WaitOther txt"
  then have "\<exists>msg. wait_failure p = Some (Wrapf (OsError txt) msg)"
    by (auto simp: wait_failure_def)
  then show "\<exists>msg. Verify gpg f p = Inl (Wrapf (OsError txt) msg) \<and>
                   VerifyInline gpg p = Inl (Wrapf (OsError txt) msg)"
    using assms by (auto simp: Verify_def VerifyInline_def)
next
  assume a: "wait p = cmd_wait (Exited n) txt \<and> (n = 0 \<or> n = 1)"
  then have w: "wait_failure p = None" using wait_failure_exit by blast
  show "Verify gpg f p = verdict (stderr p)" using Verify_verdict[OF assms w] .
  show "VerifyInline gpg p = verdict (stderr p)" using VerifyInline_verdict[OF assms(4) w] .
qed

theorem C3_exit_status_witness:
  "Verify (New ''gpg'') \<lparr>tempdir_err = None, write_data_err = None, write_sig_err = None\<rparr>
     \<lparr>start_err = None, wait = cmd_wait (Exited 1) ''exit status 1'', stdout = [],
      stderr = ''gpg: BAD signature from '' @ [dq] @ ''Eve'' @ [dq, nl]\<rparr>
   = Inr \<lparr>Signed = ''Eve'', Encrypted = [], GoodSignature = False, Warnings = []\<rparr> \<and>
   VerifyInline (New ''gpg'')
     \<lparr>start_err = None, wait = cmd_wait (Exited 1) ''exit status 1'', stdout = [],
      stderr = ''gpg: BAD signature from '' @ [dq] @ ''Eve'' @ [dq, nl]\<rparr>
   = Inr \<lparr>Signed = ''Eve'', Encrypted = [], GoodSignature = False, Warnings = []\<rparr> \<and>
   (\<exists>msg.
      Verify (New ''gpg'') \<lparr>tempdir_err = None, write_data_err = None, write_sig_err = None\<rparr>
        \<lparr>start_err = None, wait = cmd_wait (Exited 2) ''exit status 2'', stdout = [],
         stderr = ''gpg: BAD signature from '' @ [dq] @ ''Eve'' @ [dq, nl]\<rparr>
      = Inl (Wrapf (OsError ''exit status 2'') msg) \<and>
      VerifyInline (New ''gpg'')
        \<lparr>start_err = None, wait = cmd_wait (Exited 2) ''exit status 2'', stdout = [],
         stderr = ''gpg: BAD signature from '' @ [dq] @ ''Eve'' @ [dq, nl]\<rparr>
      = Inl (Wrapf (OsError ''exit status 2'') msg)) \<and>
   (\<exists>msg.
      Verify (New ''gpg'') \<lparr>tempdir_err = None, write_data_err = None, write_sig_err = None\<rparr>
        \<lparr>start_err = None, wait = cmd_wait Signaled ''signal: killed'', stdout = [],
         stderr = ''gpg: Good signature from '' @ [dq] @ ''Alice'' @ [dq, nl]\<rparr>
      = Inl (Wrapf (OsError ''signal: killed'') msg) \<and>
      VerifyInline (New ''gpg'')
        \<lparr>start_err = None, wait = cmd_wait Signaled ''signal: killed'', stdout = [],
         stderr = ''gpg: Good signature from '' @ [dq] @ ''Alice'' @ [dq, nl]\<rparr>
      = Inl (Wrapf (OsError ''signal: killed'') msg))"
  using
    C3_exit_status[of "\<lparr>tempdir_err = None, write_data_err = None, write_sig_err = None\<rparr>"
      "\<lparr>start_err = None, wait = cmd_wait (Exited 1) ''exit status 1'', stdout = [],
        stderr = ''gpg: BAD signature from '' @ [dq] @ ''Eve'' @ [dq, nl]\<rparr>"
      1 "''exit status 1''" "New ''gpg''"]
    C3_exit_status[of "\<lparr>tempdir_err = None, write_data_err = None, write_sig_err = None\<rparr>"
      "\<lparr>start_err = None, wait = cmd_wait (Exited 2) ''exit status 2'', stdout = [],
        stderr = ''gpg: BAD signature from '' @ [dq] @ ''Eve'' @ [dq, nl]\<rparr>"
      2 "''exit status 2''" "New ''gpg''"]
    C3_exit_status[of "\<lparr>tempdir_err = None, write_data_err = None, write_sig_err = None\<rparr>"
      "\<lparr>start_err = None, wait = cmd_wait Signaled ''signal: killed'', stdout = [],
        stderr = ''gpg: Good signature from '' @ [dq] @ ''Alice'' @ [dq, nl]\<rparr>"
      0 "''signal: killed''" "New ''gpg''"]
  by (simp add: verdict_def good_signature_line_def bad_signature_line_def quoted_identity_def
      sanitize_filter zero_Status_def nl_def dq_def esc_def cr_def)

text \<open>
  C4. In every Status that \<open>Decrypt\<close>, \<open>Verify\<close> or \<open>VerifyInline\<close> returns, the signer
  and every entry of the list of recipients are free of the escape byte and of the
  carriage return.
\<close>

theorem C4_status_sanitized:
  "(Decrypt gpg p = Inr (out, st) \<longrightarrow>
      no_control (Signed st) \<and> (\<forall>e\<in>set (Encrypted st). no_control e)) \<and>
   (Verify gpg f p = Inr st \<longrightarrow>
      no_control (Signed st) \<and> (\<forall>e\<in>set (Encrypted st). no_control e)) \<and>
   (VerifyInline gpg p = Inr st \<longrightarrow>
      no_control (Signed st) \<and> (\<forall>e\<in>set (Encrypted st). no_control e))"
proof (intro conjI impI)
  assume d: "Decrypt gpg p = Inr (out, st)"
  then have ok: "start_err p = None" "wait p = WaitNil" using Decrypt_Inr by blast+
  have nc: "\<And>m. no_control (sanitize m)" by (simp add: no_control_def sanitize_clean)
  show "no_control (Signed st)"
    using d Decrypt_ok[OF ok, of gpg] nc
    by (auto simp: zero_Status_def no_control_def split: option.splits)
  show "\<forall>e\<in>set (Encrypted st). no_control e"
    using d Decrypt_ok[OF ok, of gpg] nc no_control_Trim by auto
next
  assume "Verify gpg f p = Inr st"
  then have "verdict (stderr p) = Inr st" using Verify_Inr by metis
  then have v: "no_control (Signed st) \<and> Encrypted st = []" by (rule verdict_no_control)
  from v show "no_control (Signed st)" by simp
  from v show "\<forall>e\<in>set (Encrypted st). no_control e" by simp
next
  assume "VerifyInline gpg p = Inr st"
  then have "verdict (stderr p) = Inr st" using VerifyInline_Inr by metis
  then have v: "no_control (Signed st) \<and> Encrypted st = []" by (rule verdict_no_control)
  from v show "no_control (Signed st)" by simp
  from v show "\<forall>e\<in>set (Encrypted st). no_control e" by simp
qed

theorem C4_status_sanitized_witness:
  "Decrypt (New ''gpg'')
     \<lparr>start_err = None, wait = WaitNil, stdout = ''hello'',
      stderr = ''gpg: encrypted with 2048-bit RSA key, ID 1234'' @ [nl] @ ''      '' @ [dq] @
               ''Bob '' @ [cr] @ ''<bob@example.com>'' @ [dq, nl] @
               ''gpg: Good signature from '' @ [dq] @ ''Alice'' @ [esc] @ ''[31m'' @ [dq, nl]\<rparr>
   = Inr (''hello'', \<lparr>Signed = ''Alice[31m'', Encrypted = [''Bob <bob@example.com>''],
                      GoodSignature = True, Warnings = []\<rparr>) \<and>
   no_control ''Alice[31m'' \<and> no_control ''Bob <bob@example.com>''"
proof -
  have d: "Decrypt (New ''gpg'')
     \<lparr>start_err = None, wait = WaitNil, stdout = ''hello'',
      stderr = ''gpg: encrypted with 2048-bit RSA key, ID 1234'' @ [nl] @ ''      '' @ [dq] @
               ''Bob '' @ [cr] @ ''<bob@example.com>'' @ [dq, nl] @
               ''gpg: Good signature from '' @ [dq] @ ''Alice'' @ [esc] @ ''[31m'' @ [dq, nl]\<rparr>
   = Inr (''hello'', \<lparr>Signed = ''Alice[31m'', Encrypted = [''Bob <bob@example.com>''],
                      GoodSignature = True, Warnings = []\<rparr>)"
    by code_simp
  from d C4_status_sanitized[of "New ''gpg''"
      "\<lparr>start_err = None, wait = WaitNil, stdout = ''hello'',
      stderr = ''gpg: encrypted with 2048-bit RSA key, ID 1234'' @ [nl] @ ''      '' @ [dq] @
               ''Bob '' @ [cr] @ ''<bob@example.com>'' @ [dq, nl] @
               ''gpg: Good signature from '' @ [dq] @ ''Alice'' @ [esc] @ ''[31m'' @ [dq, nl]\<rparr>"
      "''hello''"
      "\<lparr>Signed = ''Alice[31m'', Encrypted = [''Bob <bob@example.com>''],
                      GoodSignature = True, Warnings = []\<rparr>"]
  show ?thesis by simp
qed



text \<open>
  C6, as stated, fails: the quoted identity of a good-signature line may be empty. Here the
  stream is the one line \<^verbatim>\<open>gpg: Good signature from ""\<close> and the subprocess exits
  with status 0: each of the three operations returns a Status with \<open>GoodSignature = True\<close>
  and an empty signer.
\<close>

theorem C6_good_without_signer_counterexample:
  "Decrypt (New ''gpg'')
     \<lparr>start_err = None, wait = WaitNil, stdout = [],
      stderr = ''gpg: Good signature from '' @ [dq, dq, nl]\<rparr>
   = Inr ([], \<lparr>Signed = [], Encrypted = [], GoodSignature = True, Warnings = []\<rparr>) \<and>
   Verify (New ''gpg'') \<lparr>tempdir_err = None, write_data_err = None, write_sig_err = None\<rparr>
     \<lparr>start_err = None, wait = WaitNil, stdout = [],
      stderr = ''gpg: Good signature from '' @ [dq, dq, nl]\<rparr>
   = Inr \<lparr>Signed = [], Encrypted = [], GoodSignature = True, Warnings = []\<rparr> \<and>
   VerifyInline (New ''gpg'')
     \<lparr>start_err = None, wait = WaitNil, stdout = [],
      stderr = ''gpg: Good signature from '' @ [dq, dq, nl]\<rparr>
   = Inr \<lparr>Signed = [], Encrypted = [], GoodSignature = True, Warnings = []\<rparr>"
  by code_simp

text \<open>
  C6, amended. In every Status that one of the three operations returns,
  \<open>GoodSignature = True\<close> implies that the stream has a good-signature line and that the
  signer is the sanitized quoted identity of the first such line; the signer is empty
  exactly when every byte of that identity is an escape or a carriage return.
\<close>

theorem C6_good_signature_signer:
  assumes "Decrypt gpg p = Inr (out, st) \<or> Verify gpg f p = Inr st \<or> VerifyInline gpg p = Inr st"
    and "GoodSignature st"
  shows "\<exists>ident. first_of good_signature_line (split_lines (stderr p)) = Some ident \<and>
           Signed st = sanitize ident \<and> (Signed st = [] \<longleftrightarrow> set ident \<subseteq> {esc, cr})"
proof -
  have "\<exists>ident. first_of good_signature_line (split_lines (stderr p)) = Some ident \<and>
           Signed st = sanitize ident"
    using assms(1)
  proof (elim disjE)
    assume d: "Decrypt gpg p = Inr (out, st)"
    then have ok: "start_err p = None" "wait p = WaitNil" using Decrypt_Inr by blast+
    show ?thesis
      using d assms(2) Decrypt_ok[OF ok, of gpg]
      by (auto simp: zero_Status_def split: option.splits)
  next
    assume "Verify gpg f p = Inr st"
    then have "verdict (stderr p) = Inr st" using Verify_Inr by metis
    then show ?thesis using assms(2) by (rule verdict_good)
  next
    assume "VerifyInline gpg p = Inr st"
    then have "verdict (stderr p) = Inr st" using VerifyInline_Inr by metis
    then show ?thesis using assms(2) by (rule verdict_good)
  qed
  then show ?thesis using sanitize_empty_iff by metis
qed

theorem C6_good_signature_signer_witness:
  "VerifyInline (New ''gpg'')
     \<lparr>start_err = None, wait = WaitNil, stdout = [],
      stderr = ''gpg: Good signature from '' @ [dq] @ ''Alice <alice@example.com>'' @ [dq, nl]\<rparr>
   = Inr \<lparr>Signed = ''Alice <alice@example.com>'', Encrypted = [], GoodSignature = True, Warnings = []\<rparr> \<and>
   first_of good_signature_line
     (split_lines (''gpg: Good signature from '' @ [dq] @ ''Alice <alice@example.com>'' @ [dq, nl]))
   = Some ''Alice <alice@example.com>'' \<and>
   sanitize ''Alice <alice@example.com>'' = ''Alice <alice@example.com>''"
proof -
  let ?p = "\<lparr>start_err = None, wait = WaitNil, stdout = [],
      stderr = ''gpg: Good signature from '' @ [dq] @ ''Alice <alice@example.com>'' @ [dq, nl]\<rparr>"
  let ?st = "\<lparr>Signed = ''Alice <alice@example.com>'', Encrypted = [], GoodSignature = True, Warnings = []\<rparr>"
  have d: "VerifyInline (New ''gpg'') ?p = Inr ?st"
    by code_simp
  have h: "Decrypt (New ''gpg'') ?p = Inr ([], ?st) \<or>
           Verify (New ''gpg'') \<lparr>tempdir_err = None, write_data_err = None, write_sig_err = None\<rparr> ?p = Inr ?st \<or>
           VerifyInline (New ''gpg'') ?p = Inr ?st"
    using d by blast
  have g: "GoodSignature ?st" by simp
  obtain ident where i:
    "first_of good_signature_line (split_lines (stderr ?p)) = Some ident"
    "Signed ?st = sanitize ident"
    using C6_good_signature_signer[OF h g] by blast
  have f: "first_of good_signature_line (split_lines (stderr ?p)) = Some ''Alice <alice@example.com>''"
    by (simp add: good_signature_line_def quoted_identity_def nl_def dq_def)
  with i(1) have "ident = ''Alice <alice@example.com>''" by simp
  with i(2) have "sanitize ''Alice <alice@example.com>'' = ''Alice <alice@example.com>''" by simp
  with d f show ?thesis by simp
qed

text \<open>
  C7, as stated, fails: a good-signature line is used even when a bad-signature line
  stands before it. Here the first line of the stream claims a bad signature of Eve and
  the second a good signature of Alice; the subprocess exits with status 1. Both
  operations return the second claim, not the first.
\<close>

theorem C7_later_good_overrides_counterexample:
  "split_lines (''gpg: BAD signature from '' @ [dq] @ ''Eve'' @ [dq, nl] @
                ''gpg: Good signature from '' @ [dq] @ ''Alice'' @ [dq, nl])
   = [''gpg: BAD signature from '' @ [dq] @ ''Eve'' @ [dq],
      ''gpg: Good signature from '' @ [dq] @ ''Alice'' @ [dq], []] \<and>
   bad_signature_line (''gpg: BAD signature from '' @ [dq] @ ''Eve'' @ [dq]) = Some ''Eve'' \<and>
   Verify (New ''gpg'') \<lparr>tempdir_err = None, write_data_err = None, write_sig_err = None\<rparr>
     \<lparr>start_err = None, wait = cmd_wait (Exited 1) ''exit status 1'', stdout = [],
      stderr = ''gpg: BAD signature from '' @ [dq] @ ''Eve'' @ [dq, nl] @
               ''gpg: Good signature from '' @ [dq] @ ''Alice'' @ [dq, nl]\<rparr>
   = Inr \<lparr>Signed = ''Alice'', Encrypted = [], GoodSignature = True, Warnings = []\<rparr> \<and>
   VerifyInline (New ''gpg'')
     \<lparr>start_err = None, wait = cmd_wait (Exited 1) ''exit status 1'', stdout = [],
      stderr = ''gpg: BAD signature from '' @ [dq] @ ''Eve'' @ [dq, nl] @
               ''gpg: Good signature from '' @ [dq] @ ''Alice'' @ [dq, nl]\<rparr>
   = Inr \<lparr>Signed = ''Alice'', Encrypted = [], GoodSignature = True, Warnings = []\<rparr>"
  by code_simp

text \<open>
  C7, amended. When the subprocess has started and exits with status 0 or 1, \<open>Verify\<close>
  and \<open>VerifyInline\<close> use the first good-signature line of the stream if there is one,
  whatever stands before and after it (bad-signature lines before it too); when no line is
  a good-signature line they use the first bad-signature line, whatever stands after it.
\<close>

theorem C7_first_good_else_first_bad:
  assumes "tempdir_err f = None" and "write_data_err f = None" and "write_sig_err f = None"
    and "start_err p = None"
    and "wait p = cmd_wait (Exited n) txt" and "n = 0 \<or> n = 1"
    and "split_lines (stderr p) = pre @ l # post"
  shows "((\<forall>x\<in>set pre. good_signature_line x = None) \<and> good_signature_line l = Some ident \<longrightarrow>
            Verify gpg f p =
              Inr \<lparr>Signed = sanitize ident, Encrypted = [], GoodSignature = True, Warnings = []\<rparr> \<and>
            VerifyInline gpg p =
              Inr \<lparr>Signed = sanitize ident, Encrypted = [], GoodSignature = True, Warnings = []\<rparr>) \<and>
         ((\<forall>x\<in>set (pre @ l # post). good_signature_line x = None) \<and>
          (\<forall>x\<in>set pre. bad_signature_line x = None) \<and> bad_signature_line l = Some ident \<longrightarrow>
            Verify gpg f p =
              Inr \<lparr>Signed = sanitize ident, Encrypted = [], GoodSignature = False, Warnings = []\<rparr> \<and>
            VerifyInline gpg p =
              Inr \<lparr>Signed = sanitize ident, Encrypted = [], GoodSignature = False, Warnings = []\<rparr>)"
proof -
  have w: "wait_failure p = None" using assms(5,6) by (rule wait_failure_exit)
  have v: "Verify gpg f p = verdict (stderr p)" using Verify_verdict[OF assms(1-4) w] .
  have vi: "VerifyInline gpg p = verdict (stderr p)" using VerifyInline_verdict[OF assms(4) w] .
  have good: "verdict (stderr p) =
      Inr \<lparr>Signed = sanitize ident, Encrypted = [], GoodSignature = True, Warnings = []\<rparr>"
    if "\<forall>x\<in>set pre. good_signature_line x = None" "good_signature_line l = Some ident"
  proof -
    have "first_of good_signature_line (split_lines (stderr p)) = Some ident"
      unfolding assms(7) using that by (rule first_of_append)
    then show ?thesis by (simp add: verdict_def zero_Status_def)
  qed
  have bad: "verdict (stderr p) =
      Inr \<lparr>Signed = sanitize ident, Encrypted = [], GoodSignature = False, Warnings = []\<rparr>"
    if "\<forall>x\<in>set (pre @ l # post). good_signature_line x = None"
       "\<forall>x\<in>set pre. bad_signature_line x = None" "bad_signature_line l = Some ident"
  proof -
    have "first_of good_signature_line (split_lines (stderr p)) = None"
      unfolding assms(7) first_of_None_iff using that(1) .
    moreover have "first_of bad_signature_line (split_lines (stderr p)) = Some ident"
      unfolding assms(7) using that(2,3) by (rule first_of_append)
    ultimately show ?thesis by (simp add: verdict_def zero_Status_def)
  qed
  show ?thesis using good bad v vi by simp
qed

theorem C7_first_good_else_first_bad_witness:
  "VerifyInline (New ''gpg'')
     \<lparr>start_err = None, wait = cmd_wait (Exited 1) ''exit status 1'', stdout = [],
      stderr = ''gpg: BAD signature from '' @ [dq] @ ''Eve'' @ [dq, nl] @
               ''gpg: Good signature from '' @ [dq] @ ''Alice'' @ [dq, nl] @
               ''gpg: Good signature from '' @ [dq] @ ''Bob'' @ [dq, nl] @
               ''gpg: BAD signature from '' @ [dq] @ ''Mallory'' @ [dq, nl]\<rparr>
   = Inr \<lparr>Signed = ''Alice'', Encrypted = [], GoodSignature = True, Warnings = []\<rparr> \<and>
   VerifyInline (New ''gpg'')
     \<lparr>start_err = None, wait = cmd_wait (Exited 1) ''exit status 1'', stdout = [],
      stderr = ''gpg: BAD signature from '' @ [dq] @ ''Eve'' @ [dq, nl] @
               ''gpg: BAD signature from '' @ [dq] @ ''Mallory'' @ [dq, nl]\<rparr>
   = Inr \<lparr>Signed = ''Eve'', Encrypted = [], GoodSignature = False, Warnings = []\<rparr>"
proof -
  let ?f = "\<lparr>tempdir_err = None, write_data_err = None, write_sig_err = None\<rparr>"
  let ?eve = "''gpg: BAD signature from '' @ [dq] @ ''Eve'' @ [dq]"
  let ?alice = "''gpg: Good signature from '' @ [dq] @ ''Alice'' @ [dq]"
  let ?bob = "''gpg: Good signature from '' @ [dq] @ ''Bob'' @ [dq]"
  let ?mallory = "''gpg: BAD signature from '' @ [dq] @ ''Mallory'' @ [dq]"
  let ?p1 = "\<lparr>start_err = None, wait = cmd_wait (Exited 1) ''exit status 1'', stdout = [],
      stderr = ''gpg: BAD signature from '' @ [dq] @ ''Eve'' @ [dq, nl] @
               ''gpg: Good signature from '' @ [dq] @ ''Alice'' @ [dq, nl] @
               ''gpg: Good signature from '' @ [dq] @ ''Bob'' @ [dq, nl] @
               ''gpg: BAD signature from '' @ [dq] @ ''Mallory'' @ [dq, nl]\<rparr>"
  let ?p2 = "\<lparr>start_err = None, wait = cmd_wait (Exited 1) ''exit status 1'', stdout = [],
      stderr = ''gpg: BAD signature from '' @ [dq] @ ''Eve'' @ [dq, nl] @
               ''gpg: BAD signature from '' @ [dq] @ ''Mallory'' @ [dq, nl]\<rparr>"
  have l1: "split_lines (stderr ?p1) = [?eve] @ ?alice # [?bob, ?mallory, []]"
    by (simp add: nl_def dq_def)
  have l2: "split_lines (stderr ?p2) = [] @ ?eve # [?mallory, []]"
    by (simp add: nl_def dq_def)
  have a: "VerifyInline (New ''gpg'') ?p1 =
      Inr \<lparr>Signed = sanitize ''Alice'', Encrypted = [], GoodSignature = True, Warnings = []\<rparr>"
    using C7_first_good_else_first_bad[of ?f ?p1 1 "''exit status 1''" "[?eve]" ?alice
        "[?bob, ?mallory, []]" "''Alice''" "New ''gpg''", OF _ _ _ _ _ _ l1]
    by (simp add: good_signature_line_def quoted_identity_def dq_def)
  have b: "VerifyInline (New ''gpg'') ?p2 =
      Inr \<lparr>Signed = sanitize ''Eve'', Encrypted = [], GoodSignature = False, Warnings = []\<rparr>"
    using C7_first_good_else_first_bad[of ?f ?p2 1 "''exit status 1''" "[]" ?eve
        "[?mallory, []]" "''Eve''" "New ''gpg''", OF _ _ _ _ _ _ l2]
    by (simp add: good_signature_line_def bad_signature_line_def quoted_identity_def dq_def)
  show ?thesis using a b by (simp add: sanitize_filter esc_def cr_def)
qed

text \<open>
  C8, as stated, fails for \<open>Decrypt\<close>, which looks for a good-signature line only. Here the
  stream of a \<open>Decrypt\<close> whose subprocess exits with status 0 is one bad-signature line
  naming Eve: the Status is returned with an empty signer.
\<close>

theorem C8_decrypt_bad_signature_counterexample:
  "bad_signature_line (''gpg: BAD signature from '' @ [dq] @ ''Eve <eve@example.com>'' @ [dq])
   = Some ''Eve <eve@example.com>'' \<and>
   Decrypt (New ''gpg'')
     \<lparr>start_err = None, wait = WaitNil, stdout = ''text'',
      stderr = ''gpg: BAD signature from '' @ [dq] @ ''Eve <eve@example.com>'' @ [dq, nl]\<rparr>
   = Inr (''text'', \<lparr>Signed = [], Encrypted = [], GoodSignature = False, Warnings = []\<rparr>)"
  by code_simp

text \<open>
  C8, amended. A Status of \<open>Verify\<close> or \<open>VerifyInline\<close> has as signer the sanitized
  quoted identity of the first good-signature line of the stream or, when there is none,
  of the first bad-signature line. A \<open>Decrypt\<close> whose subprocess has started and exits
  with status 0 returns a Status whose signer is the sanitized quoted identity of the
  first good-signature line, and the empty string when no line is a good-signature line,
  whatever bad-signature lines the stream has.
\<close>

theorem C8_signer_source:
  "(Verify gpg f p = Inr st \<longrightarrow>
      (\<exists>ident. (first_of good_signature_line (split_lines (stderr p)) = Some ident \<or>
                first_of good_signature_line (split_lines (stderr p)) = None \<and>
                first_of bad_signature_line (split_lines (stderr p)) = Some ident) \<and>
               Signed st = sanitize ident)) \<and>
   (VerifyInline gpg p = Inr st \<longrightarrow>
      (\<exists>ident. (first_of good_signature_line (split_lines (stderr p)) = Some ident \<or>
                first_of good_signature_line (split_lines (stderr p)) = None \<and>
                first_of bad_signature_line (split_lines (stderr p)) = Some ident) \<and>
               Signed st = sanitize ident)) \<and>
   (start_err p = None \<and> wait p = WaitNil \<longrightarrow>
      (\<exists>st'. Decrypt gpg p = Inr (stdout p, st') \<and>
             Signed st' = (case first_of good_signature_line (split_lines (stderr p)) of
                             Some ident \<Rightarrow> sanitize ident | None \<Rightarrow> [])))"
proof (intro conjI impI)
  assume "Verify gpg f p = Inr st"
  then have "verdict (stderr p) = Inr st" using Verify_Inr by metis
  then show "\<exists>ident. (first_of good_signature_line (split_lines (stderr p)) = Some ident \<or>
                first_of good_signature_line (split_lines (stderr p)) = None \<and>
                first_of bad_signature_line (split_lines (stderr p)) = Some ident) \<and>
               Signed st = sanitize ident"
    by (rule verdict_signer)
next
  assume "VerifyInline gpg p = Inr st"
  then have "verdict (stderr p) = Inr st" using VerifyInline_Inr by metis
  then show "\<exists>ident. (first_of good_signature_line (split_lines (stderr p)) = Some ident \<or>
                first_of good_signature_line (split_lines (stderr p)) = None \<and>
                first_of bad_signature_line (split_lines (stderr p)) = Some ident) \<and>
               Signed st = sanitize ident"
    by (rule verdict_signer)
next
  assume "start_err p = None \<and> wait p = WaitNil"
  then have ok: "start_err p = None" "wait p = WaitNil" by simp_all
  show "\<exists>st'. Decrypt gpg p = Inr (stdout p, st') \<and>
             Signed st' = (case first_of good_signature_line (split_lines (stderr p)) of
                             Some ident \<Rightarrow> sanitize ident | None \<Rightarrow> [])"
    unfolding Decrypt_ok[OF ok] by (simp add: zero_Status_def split: option.splits)
qed

theorem C8_signer_source_witness:
  "VerifyInline (New ''gpg'')
     \<lparr>start_err = None, wait = WaitExitError ''exit status 1'' (Some 1), stdout = [],
      stderr = ''gpg: BAD signature from '' @ [dq] @ ''Eve'' @ [dq, nl]\<rparr>
   = Inr \<lparr>Signed = ''Eve'', Encrypted = [], GoodSignature = False, Warnings = []\<rparr> \<and>
   (\<exists>ident. first_of bad_signature_line
              (split_lines (''gpg: BAD signature from '' @ [dq] @ ''Eve'' @ [dq, nl])) = Some ident \<and>
            ''Eve'' = sanitize ident) \<and>
   (\<exists>st. Decrypt (New ''gpg'')
           \<lparr>start_err = None, wait = WaitNil, stdout = ''text'',
            stderr = ''gpg: Good signature from '' @ [dq] @ ''Alice'' @ [dq, nl]\<rparr>
         = Inr (''text'', st) \<and> Signed st = ''Alice'')"
proof -
  let ?p1 = "\<lparr>start_err = None, wait = WaitExitError ''exit status 1'' (Some 1), stdout = [],
      stderr = ''gpg: BAD signature from '' @ [dq] @ ''Eve'' @ [dq, nl]\<rparr>"
  let ?st1 = "\<lparr>Signed = ''Eve'', Encrypted = [], GoodSignature = False, Warnings = []\<rparr>"
  let ?p2 = "\<lparr>start_err = None, wait = WaitNil, stdout = ''text'',
            stderr = ''gpg: Good signature from '' @ [dq] @ ''Alice'' @ [dq, nl]\<rparr>"
  let ?f = "\<lparr>tempdir_err = None, write_data_err = None, write_sig_err = None\<rparr>"
  have v: "VerifyInline (New ''gpg'') ?p1 = Inr ?st1" by code_simp
  have g: "first_of good_signature_line (split_lines (stderr ?p1)) = None"
    by (simp add: good_signature_line_def quoted_identity_def nl_def dq_def)
  have "\<exists>ident. (first_of good_signature_line (split_lines (stderr ?p1)) = Some ident \<or>
                first_of good_signature_line (split_lines (stderr ?p1)) = None \<and>
                first_of bad_signature_line (split_lines (stderr ?p1)) = Some ident) \<and>
               Signed ?st1 = sanitize ident"
    using C8_signer_source[of "New ''gpg''" ?f ?p1 ?st1] v by blast
  then have a: "\<exists>ident. first_of bad_signature_line (split_lines (stderr ?p1)) = Some ident \<and>
      ''Eve'' = sanitize ident"
    unfolding g by simp
  have "\<exists>st'. Decrypt (New ''gpg'') ?p2 = Inr (stdout ?p2, st') \<and>
             Signed st' = (case first_of good_signature_line (split_lines (stderr ?p2)) of
                             Some ident \<Rightarrow> sanitize ident | None \<Rightarrow> [])"
    using C8_signer_source[of "New ''gpg''" ?f ?p2 ?st1] by simp
  moreover have "first_of good_signature_line (split_lines (stderr ?p2)) = Some ''Alice''"
    by (simp add: good_signature_line_def quoted_identity_def nl_def dq_def)
  moreover have "sanitize ''Alice'' = ''Alice''" by (simp add: sanitize_filter esc_def cr_def)
  ultimately have b: "\<exists>st. Decrypt (New ''gpg'') ?p2 = Inr (''text'', st) \<and> Signed st = ''Alice''"
    by simp
  from v a b show ?thesis by simp
qed

text \<open>
  C9, as stated, fails: \<open>encryptedRE\<close> ends with a newline, so an announcement whose line
  of identity is not ended by one gives no entry. Here the subprocess exits with status 0.
  The first stream is the announcement of Bob without a newline at its end: the list of
  recipients is empty. The second stream announces Alice and then Bob, the last line again
  without newline: the list has Alice only.
\<close>

theorem C9_unterminated_announcement_counterexample:
  "Decrypt (New ''gpg'')
     \<lparr>start_err = None, wait = cmd_wait (Exited 0) [], stdout = ''plain text'',
      stderr = ''gpg: encrypted with RSA key'' @ [nl] @
               ''      '' @ [dq] @ ''Bob <bob@example.com>'' @ [dq]\<rparr>
   = Inr (''plain text'', \<lparr>Signed = [], Encrypted = [], GoodSignature = False, Warnings = []\<rparr>) \<and>
   Decrypt (New ''gpg'')
     \<lparr>start_err = None, wait = cmd_wait (Exited 0) [], stdout = ''plain text'',
      stderr = ''gpg: encrypted with RSA key'' @ [nl] @
               ''      '' @ [dq] @ ''Alice <alice@example.com>'' @ [dq, nl] @
               ''gpg: encrypted with RSA key'' @ [nl] @
               ''      '' @ [dq] @ ''Bob <bob@example.com>'' @ [dq]\<rparr>
   = Inr (''plain text'', \<lparr>Signed = [], Encrypted = [''Alice <alice@example.com>''],
                           GoodSignature = False, Warnings = []\<rparr>)"
  by code_simp

text \<open>
  C9, amended. Let the subprocess of \<open>Decrypt\<close> have started and exit with status 0. The
  list of recipients of the Status has one entry for each complete announcement of the
  diagnostic stream, in the order of the stream: the identity, sanitized and trimmed of
  tabs and spaces; when no identity has an escape or a carriage return nor a tab or space
  at either end, the list is the list of the identities. An announcement is complete when
  it is the line \<open>gpg: encrypted with\<close> and a non-empty description of the key, then
  white space, then a line that is a non-empty identity in double quotes, ended by a
  newline; an announcement that is not complete gives no entry. The stream is read as
  complete announcements, other lines (none of them the first line of a complete
  announcement) and a last piece without newline; every stream can be read so.
\<close>

theorem C9_recipients_in_order:
  assumes "start_err p = None" and "wait p = cmd_wait (Exited 0) txt"
  shows "(\<exists>cs rest. stderr p = stream cs @ rest \<and> stream_ok cs rest) \<and>
         (stderr p = stream cs @ rest \<and> stream_ok cs rest \<longrightarrow>
            (\<exists>st. Decrypt gpg p = Inr (stdout p, st) \<and>
               Encrypted st = map (\<lambda>ident. Trim (sanitize ident) [tab, spc]) (identities cs) \<and>
               length (Encrypted st) = length (identities cs) \<and>
               ((\<forall>ident\<in>set (identities cs).
                   no_control ident \<and> hd ident \<notin> {tab, spc} \<and> last ident \<notin> {tab, spc}) \<longrightarrow>
                Encrypted st = identities cs)))"
proof (intro conjI impI)
  show "\<exists>cs rest. stderr p = stream cs @ rest \<and> stream_ok cs rest" by (rule stream_reading)
next
  assume a: "stderr p = stream cs @ rest \<and> stream_ok cs rest"
  have ok: "start_err p = None" "wait p = WaitNil" using assms(1,2) by simp_all
  have oks: "\<forall>c\<in>set cs. chunk_ok c" using a stream_ok_chunks by blast
  have m: "FindAllStringSubmatch encryptedRE (stderr p) = identities cs"
    using a FindAllStringSubmatch_stream by simp
  let ?st = "(case first_of good_signature_line (split_lines (stderr p)) of
        Some ident \<Rightarrow> zero_Status\<lparr>Signed := sanitize ident, GoodSignature := True\<rparr>
      | None \<Rightarrow> zero_Status)
     \<lparr>Encrypted := map (\<lambda>m1. Trim (sanitize m1) [tab, spc]) (identities cs)\<rparr>"
  have d: "Decrypt gpg p = Inr (stdout p, ?st)" using Decrypt_ok[OF ok, of gpg] m by simp
  have e: "Encrypted ?st = map (\<lambda>ident. Trim (sanitize ident) [tab, spc]) (identities cs)"
    by simp
  have "map (\<lambda>ident. Trim (sanitize ident) [tab, spc]) (identities cs) = identities cs"
    if clean: "\<forall>ident\<in>set (identities cs).
               no_control ident \<and> hd ident \<notin> {tab, spc} \<and> last ident \<notin> {tab, spc}"
  proof -
    have "Trim (sanitize ident) [tab, spc] = ident" if "ident \<in> set (identities cs)" for ident
    proof -
      have "ident \<noteq> []" using that identities_nonempty[OF oks] by blast
      moreover have "sanitize ident = ident" using that clean sanitize_id by blast
      ultimately show ?thesis using that clean by (simp add: Trim_id)
    qed
    then show ?thesis by (simp add: map_idI)
  qed
  with d e show "\<exists>st. Decrypt gpg p = Inr (stdout p, st) \<and>
               Encrypted st = map (\<lambda>ident. Trim (sanitize ident) [tab, spc]) (identities cs) \<and>
               length (Encrypted st) = length (identities cs) \<and>
               ((\<forall>ident\<in>set (identities cs).
                   no_control ident \<and> hd ident \<notin> {tab, spc} \<and> last ident \<notin> {tab, spc}) \<longrightarrow>
                Encrypted st = identities cs)"
    by auto
qed

theorem C9_recipients_in_order_witness:
  "(\<exists>st. Decrypt (New ''gpg'')
          \<lparr>start_err = None, wait = cmd_wait (Exited 0) [], stdout = ''plain text'',
           stderr = ''gpg: encrypted with 2048-bit RSA key, ID AAAA1111'' @ [nl] @
                    ''      '' @ [dq] @ ''Alice <alice@example.com>'' @ [dq, nl] @
                    ''gpg: encrypted with RSA key, ID CCCC3333'' @ [nl] @
                    ''gpg: encrypted with 4096-bit RSA key, ID BBBB2222'' @ [nl] @
                    ''      '' @ [dq] @ ''Bob <bob@example.com>'' @ [dq, nl] @
                    ''gpg: done''\<rparr>
        = Inr (''plain text'', st) \<and>
        Encrypted st = [''Alice <alice@example.com>'', ''Bob <bob@example.com>'']) \<and>
   (\<exists>st. Decrypt (New ''gpg'')
          \<lparr>start_err = None, wait = cmd_wait (Exited 0) [], stdout = ''plain text'',
           stderr = ''gpg: encrypted with RSA key'' @ [nl] @
                    ''      '' @ [dq] @ ''Bob <bob@example.com>'' @ [dq]\<rparr>
        = Inr (''plain text'', st) \<and>
        Encrypted st = [])"
proof -
  let ?p = "\<lparr>start_err = None, wait = cmd_wait (Exited 0) [], stdout = ''plain text'',
           stderr = ''gpg: encrypted with 2048-bit RSA key, ID AAAA1111'' @ [nl] @
                    ''      '' @ [dq] @ ''Alice <alice@example.com>'' @ [dq, nl] @
                    ''gpg: encrypted with RSA key, ID CCCC3333'' @ [nl] @
                    ''gpg: encrypted with 4096-bit RSA key, ID BBBB2222'' @ [nl] @
                    ''      '' @ [dq] @ ''Bob <bob@example.com>'' @ [dq, nl] @
                    ''gpg: done''\<rparr>"
  let ?cs = "[Announcement '' 2048-bit RSA key, ID AAAA1111'' ''      '' ''Alice <alice@example.com>'',
              Other ''gpg: encrypted with RSA key, ID CCCC3333'',
              Announcement '' 4096-bit RSA key, ID BBBB2222'' ''      '' ''Bob <bob@example.com>'']"
  let ?q = "\<lparr>start_err = None, wait = cmd_wait (Exited 0) [], stdout = ''plain text'',
           stderr = ''gpg: encrypted with RSA key'' @ [nl] @
                    ''      '' @ [dq] @ ''Bob <bob@example.com>'' @ [dq]\<rparr>"
  let ?ds = "[Other ''gpg: encrypted with RSA key'']"
  let ?rest = "''      '' @ [dq] @ ''Bob <bob@example.com>'' @ [dq]"
  have 1: "start_err ?p = None" "start_err ?q = None" by simp_all
  have 2: "wait ?p = cmd_wait (Exited 0) []" "wait ?q = cmd_wait (Exited 0) []" by simp_all
  have 3: "stderr ?p = stream ?cs @ ''gpg: done'' \<and> stream_ok ?cs ''gpg: done''"
    by (simp add: stream_def opens_announcement_def identity_line_def
        nl_def spc_def dq_def tab_def ff_def cr_def)
  have 4: "stderr ?q = stream ?ds @ ?rest \<and> stream_ok ?ds ?rest"
    by (simp add: stream_def opens_announcement_def identity_line_def
        nl_def spc_def dq_def tab_def ff_def cr_def)
  have 5: "\<forall>ident\<in>set (identities ?cs).
               no_control ident \<and> hd ident \<notin> {tab, spc} \<and> last ident \<notin> {tab, spc}"
    by (simp add: no_control_def esc_def cr_def tab_def spc_def)
  obtain st where "Decrypt (New ''gpg'') ?p = Inr (stdout ?p, st)" "Encrypted st = identities ?cs"
    using C9_recipients_in_order[OF 1(1) 2(1), of ?cs "''gpg: done''" "New ''gpg''"] 3 5 by blast
  then have a: "\<exists>st. Decrypt (New ''gpg'') ?p = Inr (''plain text'', st) \<and>
        Encrypted st = [''Alice <alice@example.com>'', ''Bob <bob@example.com>'']"
    by simp
  obtain st' where "Decrypt (New ''gpg'') ?q = Inr (stdout ?q, st')"
      "Encrypted st' = map (\<lambda>ident. Trim (sanitize ident) [tab, spc]) (identities ?ds)"
    using C9_recipients_in_order[OF 1(2) 2(2), of ?ds ?rest "New ''gpg''"] 4 by blast
  then have b: "\<exists>st. Decrypt (New ''gpg'') ?q = Inr (''plain text'', st) \<and> Encrypted st = []"
    by simp
  from a b show ?thesis by (rule conjI)
qed

text \<open>
  C10. Every entry that \<open>Decrypt\<close> puts into the list of recipients is the text of the
  group of one match of \<open>encryptedRE\<close>, sanitized and then trimmed of tabs and spaces at both
  ends: an entry that is not empty neither begins nor ends with a tab or a space.
\<close>

theorem C10_recipients_trimmed:
  assumes "Decrypt gpg p = Inr (out, st)"
  shows "Encrypted st = map (\<lambda>m1. Trim (sanitize m1) [tab, spc])
                          (FindAllStringSubmatch encryptedRE (stderr p)) \<and>
         (\<forall>e\<in>set (Encrypted st). e \<noteq> [] \<longrightarrow>
            hd e \<noteq> tab \<and> hd e \<noteq> spc \<and> last e \<noteq> tab \<and> last e \<noteq> spc)"
proof -
  have ok: "start_err p = None" "wait p = WaitNil" using assms Decrypt_Inr by blast+
  have e: "Encrypted st = map (\<lambda>m1. Trim (sanitize m1) [tab, spc])
                          (FindAllStringSubmatch encryptedRE (stderr p))"
    using assms unfolding Decrypt_ok[OF ok] by auto
  have "hd (Trim s [tab, spc]) \<noteq> tab \<and> hd (Trim s [tab, spc]) \<noteq> spc \<and>
        last (Trim s [tab, spc]) \<noteq> tab \<and> last (Trim s [tab, spc]) \<noteq> spc"
    if "Trim s [tab, spc] \<noteq> []" for s
    using Trim_ends[OF that] by simp
  then show ?thesis unfolding e by auto
qed

theorem C10_recipients_trimmed_witness:
  "Decrypt (New ''gpg'')
     \<lparr>start_err = None, wait = WaitNil, stdout = ''text'',
      stderr = ''gpg: encrypted with RSA key'' @ [nl] @ ''      '' @ [dq, tab] @
               '' Bob <bob@example.com>  '' @ [tab, dq, nl]\<rparr>
   = Inr (''text'', \<lparr>Signed = [], Encrypted = [''Bob <bob@example.com>''],
                     GoodSignature = False, Warnings = []\<rparr>) \<and>
   FindAllStringSubmatch encryptedRE
     (''gpg: encrypted with RSA key'' @ [nl] @ ''      '' @ [dq, tab] @
               '' Bob <bob@example.com>  '' @ [tab, dq, nl])
   = [[tab] @ '' Bob <bob@example.com>  '' @ [tab]] \<and>
   hd ''Bob <bob@example.com>'' \<noteq> tab \<and> hd ''Bob <bob@example.com>'' \<noteq> spc \<and>
   last ''Bob <bob@example.com>'' \<noteq> tab \<and> last ''Bob <bob@example.com>'' \<noteq> spc"
proof -
  let ?p = "\<lparr>start_err = None, wait = WaitNil, stdout = ''text'',
      stderr = ''gpg: encrypted with RSA key'' @ [nl] @ ''      '' @ [dq, tab] @
               '' Bob <bob@example.com>  '' @ [tab, dq, nl]\<rparr>"
  let ?st = "\<lparr>Signed = [], Encrypted = [''Bob <bob@example.com>''],
                     GoodSignature = False, Warnings = []\<rparr>"
  have d: "Decrypt (New ''gpg'') ?p = Inr (''text'', ?st)" by code_simp
  have m: "FindAllStringSubmatch encryptedRE (stderr ?p) = [[tab] @ '' Bob <bob@example.com>  '' @ [tab]]"
    by code_simp
  have "\<forall>e\<in>set (Encrypted ?st). e \<noteq> [] \<longrightarrow>
            hd e \<noteq> tab \<and> hd e \<noteq> spc \<and> last e \<noteq> tab \<and> last e \<noteq> spc"
    using C10_recipients_trimmed[OF d] by (rule conjunct2)
  then have "hd ''Bob <bob@example.com>'' \<noteq> tab \<and> hd ''Bob <bob@example.com>'' \<noteq> spc \<and>
      last ''Bob <bob@example.com>'' \<noteq> tab \<and> last ''Bob <bob@example.com>'' \<noteq> spc"
    by simp
  with d m show ?thesis by simp
qed

end
